theory Spec2Isabelle
  imports Complex_Main "HOL-Library.Word" "HOL-Library.Multiset"
begin

section \<open>Data model\<close>

text \<open>
  The program \<open>maxdefense.hh\<close> chooses armor items that maximise the defense points
  within a gold budget. This theory embeds its functions \<open>sum_armor_vector\<close>,
  \<open>filter_armor_vector\<close>, \<open>greedy_max_defense\<close> and \<open>exhaustive_max_defense\<close> and
  proves what they compute.

  Conventions of the embedding:
  \<^item> A \<open>double\<close> is an IEEE 754 binary64 number: a finite number, an infinity or a
    NaN. Additions and divisions round to the nearest binary64 number, ties to the even
    significand, and comparisons with a NaN are false. Every operation is evaluated in
    binary64, without excess precision, as on x86-64 and AArch64.
  \<^item> Integers are those of the usual 64-bit platforms: \<open>int\<close> has 32 bits, \<open>size_t\<close>
    and \<open>uint64_t\<close> have 64 bits. The conversions between them are written out.
  \<^item> Assertions are enabled; a failed assertion is the error value
    \<open>AssertionFailure\<close>.
\<close>

subsection \<open>Binary64 numbers\<close>

text \<open>
  A finite \<open>double\<close> is given by its value. The sign of a zero and the payload of a NaN
  are not represented: the program only adds, divides by costs and compares. The
  constructor of an item asserts that the cost is greater than \<open>0.0\<close>, so no divisor is
  a zero, and no other operation of the program can tell the two zeros or two NaNs
  apart.
\<close>

datatype double = Fin real | PInf | NInf | NaN

text \<open>\<open>bit_length x\<close> is the number of binary digits of \<open>x\<close>.\<close>

fun bit_length :: "nat \<Rightarrow> nat" where
  "bit_length x = (if x = 0 then 0 else Suc (bit_length (x div 2)))"

declare bit_length.simps [simp del]

text \<open>The exponent \<open>e\<close> with \<open>2^e \<le> a < 2^(e+1)\<close>, for \<open>a > 0\<close>.\<close>

definition binade :: "real \<Rightarrow> int" where
  "binade a =
     (if 1 \<le> a then int (bit_length (nat \<lfloor>a\<rfloor>)) - 1
      else (let k = int (bit_length (nat \<lfloor>1 / a\<rfloor>))
            in if 2 powi (1 - k) \<le> a then 1 - k else - k))"

definition round_half_even :: "real \<Rightarrow> int" where
  "round_half_even y =
     (let n = \<lfloor>y\<rfloor>; f = y - of_int n
      in if f < 1 / 2 \<or> (f = 1 / 2 \<and> even n) then n else n + 1)"

definition overflow_bound :: real where
  "overflow_bound = 2 ^ 1024"

text \<open>
  Rounding of an exact result: the significand keeps 53 binary digits, below \<open>2^-1022\<close>
  the spacing stays \<open>2^-1074\<close> (subnormal numbers, underflow to zero), and a result
  that rounds to \<open>2^1024\<close> or more is an infinity.
\<close>

definition round64 :: "real \<Rightarrow> double" where
  "round64 x =
     (if x = 0 then Fin 0
      else (let a = \<bar>x\<bar>;
                g = max (binade a - 52) (- 1074);
                r = of_int (round_half_even (a / 2 powi g)) * 2 powi g
            in if overflow_bound \<le> r then (if 0 < x then PInf else NInf)
               else Fin (sgn x * r)))"

text \<open>The binary64 numbers are the values that rounding leaves as they are.\<close>

definition binary64 :: "double \<Rightarrow> bool" where
  "binary64 d = (case d of Fin r \<Rightarrow> round64 r = Fin r | _ \<Rightarrow> True)"

text \<open>The operators \<open>+\<close>, \<open>/\<close>, \<open><\<close> and \<open><=\<close> on \<open>double\<close>; \<open>a > b\<close> is \<open>dlt b a\<close>.\<close>

definition dadd :: "double \<Rightarrow> double \<Rightarrow> double" where
  "dadd a b =
     (case (a, b) of
        (NaN, _) \<Rightarrow> NaN
      | (_, NaN) \<Rightarrow> NaN
      | (PInf, NInf) \<Rightarrow> NaN
      | (NInf, PInf) \<Rightarrow> NaN
      | (PInf, _) \<Rightarrow> PInf
      | (_, PInf) \<Rightarrow> PInf
      | (NInf, _) \<Rightarrow> NInf
      | (_, NInf) \<Rightarrow> NInf
      | (Fin x, Fin y) \<Rightarrow> round64 (x + y))"

definition ddiv :: "double \<Rightarrow> double \<Rightarrow> double" where
  "ddiv a b =
     (case (a, b) of
        (NaN, _) \<Rightarrow> NaN
      | (_, NaN) \<Rightarrow> NaN
      | (Fin x, Fin y) \<Rightarrow>
          if y = 0 then (if x = 0 then NaN else if 0 < x then PInf else NInf)
          else round64 (x / y)
      | (Fin x, _) \<Rightarrow> Fin 0
      | (PInf, Fin y) \<Rightarrow> if 0 \<le> y then PInf else NInf
      | (NInf, Fin y) \<Rightarrow> if 0 \<le> y then NInf else PInf
      | (_, _) \<Rightarrow> NaN)"

definition dlt :: "double \<Rightarrow> double \<Rightarrow> bool" where
  "dlt a b =
     (case (a, b) of
        (NaN, _) \<Rightarrow> False
      | (_, NaN) \<Rightarrow> False
      | (Fin x, Fin y) \<Rightarrow> x < y
      | (NInf, NInf) \<Rightarrow> False
      | (NInf, _) \<Rightarrow> True
      | (PInf, _) \<Rightarrow> False
      | (_, PInf) \<Rightarrow> True
      | (_, NInf) \<Rightarrow> False)"

definition dle :: "double \<Rightarrow> double \<Rightarrow> bool" where
  "dle a b = (a \<noteq> NaN \<and> b \<noteq> NaN \<and> \<not> dlt b a)"

subsection \<open>Items\<close>

record ArmorItem =
  description :: string
  cost :: double
  defense :: double

text \<open>
  The constructor asserts a non-empty description and a positive cost. A valid item is
  one that the constructor accepts: its fields are binary64 numbers.
\<close>

datatype error = AssertionFailure | UndefinedBehaviour

definition valid_armor :: "ArmorItem \<Rightarrow> bool" where
  "valid_armor a \<longleftrightarrow>
     description a \<noteq> [] \<and> dlt (Fin 0) (cost a) \<and> binary64 (cost a) \<and> binary64 (defense a)"

definition new_ArmorItem :: "string \<Rightarrow> double \<Rightarrow> double \<Rightarrow> error + ArmorItem" where
  "new_ArmorItem d c p =
     (if d = [] then Inl AssertionFailure
      else if \<not> dlt (Fin 0) c then Inl AssertionFailure
      else Inr \<lparr>description = d, cost = c, defense = p\<rparr>)"

text \<open>
  \<open>ArmorVector\<close> is a vector of shared pointers to items. Items have no mutator, so a
  pointer is modelled by the item it points to.
\<close>

type_synonym ArmorVector = "ArmorItem list"

section \<open>sum_armor_vector\<close>

text \<open>
  The two output parameters are returned as the pair (total cost, total defense). Each
  \<open>+=\<close> is a binary64 addition, in the order of the vector.
\<close>

definition sum_armor_vector :: "ArmorVector \<Rightarrow> double \<times> double" where
  "sum_armor_vector armors =
     fold (\<lambda>armor (total_cost, total_defense).
             (dadd total_cost (cost armor), dadd total_defense (defense armor)))
          armors (Fin 0, Fin 0)"

section \<open>filter_armor_vector\<close>

text \<open>
  \<open>total_size\<close> is an \<open>int\<close> (32 bits). In \<open>filtered->size() >= total_size\<close> it is
  converted to \<open>size_t\<close> (64 bits, unsigned), that is reduced modulo \<open>2^64\<close>, so a
  negative limit becomes a huge unsigned number.
\<close>

definition int_to_size_t :: "32 word \<Rightarrow> nat" where
  "int_to_size_t i = nat (sint i mod 2 ^ 64)"

text \<open>\<open>armor->defense() >= min_defense && armor->defense() <= max_defense\<close>.\<close>

definition armor_matches :: "double \<Rightarrow> double \<Rightarrow> ArmorItem \<Rightarrow> bool" where
  "armor_matches min_defense max_defense armor \<longleftrightarrow>
     dle min_defense (defense armor) \<and> dle (defense armor) max_defense"

text \<open>The range-for loop over \<open>source\<close>, with its \<open>break\<close>; \<open>filtered\<close> is the accumulator.\<close>

fun filter_loop :: "ArmorVector \<Rightarrow> double \<Rightarrow> double \<Rightarrow> 32 word \<Rightarrow> ArmorVector \<Rightarrow> ArmorVector" where
  "filter_loop [] min_defense max_defense total_size filtered = filtered"
| "filter_loop (armor # source) min_defense max_defense total_size filtered =
     (if armor_matches min_defense max_defense armor then
        (let filtered' = filtered @ [armor] in
         if length filtered' \<ge> int_to_size_t total_size then filtered'
         else filter_loop source min_defense max_defense total_size filtered')
      else filter_loop source min_defense max_defense total_size filtered)"

definition filter_armor_vector :: "ArmorVector \<Rightarrow> double \<Rightarrow> double \<Rightarrow> 32 word \<Rightarrow> ArmorVector" where
  "filter_armor_vector source min_defense max_defense total_size =
     filter_loop source min_defense max_defense total_size []"

section \<open>greedy_max_defense\<close>

text \<open>
  The state of a call: the caller's vector \<open>armors\<close> (passed by reference to a constant
  vector), the working copy \<open>todo\<close>, the \<open>result\<close> under construction and its cost.
  The record \<open>frame\<close> is the part that both solvers share.
\<close>

record frame =
  armors :: ArmorVector

record greedy_state = frame +
  todo :: ArmorVector
  result :: ArmorVector
  result_cost :: double

text \<open>
  The inner \<open>for\<close> loop. Its state is (\<open>max_armor\<close>, \<open>max_armor_value\<close>,
  \<open>max_armor_index\<close>); the index starts at the \<open>size_t\<close> value \<open>-1\<close>, which no position
  of a vector equals and which is modelled by \<open>None\<close>. The sum
  \<open>result_cost + armor->cost()\<close> and the quotient \<open>armor->defense() / armor->cost()\<close>
  are binary64 operations.
\<close>

definition scan_step ::
  "ArmorVector \<Rightarrow> double \<Rightarrow> double \<Rightarrow> nat \<Rightarrow> ArmorItem \<times> double \<times> nat option \<Rightarrow> ArmorItem \<times> double \<times> nat option" where
  "scan_step td rcost total_cost i s =
     (let armor = td ! i in
      if dle (dadd rcost (cost armor)) total_cost then
        (let armor_value = ddiv (defense armor) (cost armor) in
         if dlt (fst (snd s)) armor_value then (armor, armor_value, Some i) else s)
      else s)"

definition greedy_scan :: "ArmorVector \<Rightarrow> double \<Rightarrow> double \<Rightarrow> ArmorItem \<times> double \<times> nat option" where
  "greedy_scan td rcost total_cost =
     fold (scan_step td rcost total_cost) [0..<length td] (td ! 0, Fin 0, None)"

definition erase :: "'a list \<Rightarrow> nat \<Rightarrow> 'a list" where
  "erase xs i = take i xs @ drop (Suc i) xs"

text \<open>A scan returns a position of the pool; the loop below terminates because of it.\<close>

lemma greedy_scan_index_aux:
  "snd (snd s) \<in> {None} \<union> Some ` {..<n} \<Longrightarrow> set is \<subseteq> {..<n} \<Longrightarrow>
   snd (snd (fold (scan_step td rc tc) is s)) \<in> {None} \<union> Some ` {..<n}"
  by (induction "is" arbitrary: s) (auto simp: scan_step_def Let_def)

lemma greedy_scan_index:
  "greedy_scan td rc tc = (a, v, Some i) \<Longrightarrow> i < length td"
proof -
  assume h: "greedy_scan td rc tc = (a, v, Some i)"
  have "snd (snd (greedy_scan td rc tc)) \<in> {None} \<union> Some ` {..<length td}"
    unfolding greedy_scan_def by (rule greedy_scan_index_aux) auto
  with h show ?thesis by auto
qed

function greedy_loop :: "double \<Rightarrow> greedy_state \<Rightarrow> greedy_state" where
  "greedy_loop total_cost st =
     (if length (todo st) \<noteq> 0 then
        (case greedy_scan (todo st) (result_cost st) total_cost of
           (max_armor, max_armor_value, max_armor_index) \<Rightarrow>
             (case max_armor_index of
                None \<Rightarrow> st
              | Some idx \<Rightarrow>
                  greedy_loop total_cost
                    (st\<lparr>result := result st @ [max_armor],
                        result_cost := dadd (result_cost st) (cost max_armor),
                        todo := erase (todo st) idx\<rparr>)))
      else st)"
  by pat_completeness auto
termination
  apply (relation "measure (\<lambda>(total_cost, st). length (todo st))")
   apply simp
  apply (auto simp: erase_def dest!: greedy_scan_index [OF sym])
  done

declare greedy_loop.simps [simp del]

definition greedy_run :: "ArmorVector \<Rightarrow> double \<Rightarrow> greedy_state" where
  "greedy_run armors0 total_cost =
     greedy_loop total_cost \<lparr>armors = armors0, todo = armors0, result = [], result_cost = Fin 0\<rparr>"

definition greedy_max_defense :: "ArmorVector \<Rightarrow> double \<Rightarrow> ArmorVector" where
  "greedy_max_defense armors0 total_cost = result (greedy_run armors0 total_cost)"

section \<open>exhaustive_max_defense\<close>

text \<open>
  The loop guard \<open>bits < pow(2,n)\<close> compares a \<open>uint64_t\<close> with a \<open>double\<close>, so \<open>bits\<close>
  is converted to \<open>double\<close> first: to the nearest number with a 53-bit significand, ties
  to the even significand. The converted value is again an integer, and \<open>pow(2,n)\<close> is
  the exact power for \<open>0 \<le> n < 64\<close>, so the comparison is written on integers. The
  digits of \<open>bits\<close> beyond the first 53 are rounded away.
\<close>

definition u64_to_double :: "nat \<Rightarrow> nat" where
  "u64_to_double x =
     (let e = bit_length x - 53;
          q = x div 2 ^ e;
          r = x mod 2 ^ e
      in if 2 * r < 2 ^ e \<or> (2 * r = 2 ^ e \<and> even q) then q * 2 ^ e
         else (q + 1) * 2 ^ e)"

text \<open>
  The inner loop over \<open>j\<close>: item \<open>j\<close> is pushed when bit \<open>j\<close> of \<open>bits\<close> is set.
\<close>

definition build_candidates :: "ArmorVector \<Rightarrow> nat \<Rightarrow> nat \<Rightarrow> ArmorVector" where
  "build_candidates av n bits =
     fold (\<lambda>j candidates. if (bits div 2 ^ j) mod 2 = 1 then candidates @ [av ! j] else candidates)
          [0..<n] []"

record exhaustive_state = frame +
  best_defense :: double
  bestVector :: ArmorVector
  flag :: bool

text \<open>The body of the loop after the candidates are built.\<close>

definition consider_candidates :: "double \<Rightarrow> ArmorVector \<Rightarrow> exhaustive_state \<Rightarrow> exhaustive_state" where
  "consider_candidates total_cost candidates st =
     (case sum_armor_vector candidates of
        (cost', defense') \<Rightarrow>
          if dle cost' total_cost then
            (if \<not> flag st \<or> dlt (best_defense st) defense'
             then st\<lparr>best_defense := defense', bestVector := candidates, flag := True\<rparr>
             else st)
          else st)"

text \<open>
  The converted counter is never below a power of two that the counter has reached, so
  the guard fails at \<open>2 ^ n\<close> at the latest. This bounds the loop; for \<open>n < 64\<close> the
  counter stays below \<open>2 ^ 64\<close> and never wraps.
\<close>

lemma bit_length_upper: "x < 2 ^ bit_length x"
proof (induction x rule: bit_length.induct)
  case (1 x)
  show ?case
  proof (cases "x = 0")
    case True
    then show ?thesis by (simp add: bit_length.simps)
  next
    case False
    with 1 have "x div 2 < 2 ^ bit_length (x div 2)" by simp
    then have "x < 2 * 2 ^ bit_length (x div 2)" by linarith
    with False show ?thesis by (simp add: bit_length.simps [of x])
  qed
qed

lemma bit_length_lower: "0 < x \<Longrightarrow> 2 ^ (bit_length x - 1) \<le> x"
proof (induction x rule: bit_length.induct)
  case (1 x)
  show ?case
  proof (cases "x div 2 = 0")
    case True
    with 1(2) show ?thesis by (simp add: bit_length.simps [of x] bit_length.simps [of 0])
  next
    case False
    with 1 have ih: "2 ^ (bit_length (x div 2) - 1) \<le> x div 2" by simp
    have pos: "0 < bit_length (x div 2)" using False by (simp add: bit_length.simps [of "x div 2"])
    have "2 ^ (bit_length x - 1) = (2::nat) ^ bit_length (x div 2)"
      using 1(2) by (simp add: bit_length.simps [of x])
    also have "\<dots> = 2 * 2 ^ (bit_length (x div 2) - 1)"
      using pos by (cases "bit_length (x div 2)") auto
    also have "\<dots> \<le> 2 * (x div 2)" using ih by simp
    also have "\<dots> \<le> x" by simp
    finally show ?thesis .
  qed
qed

lemma bit_length_eqI: "2 ^ k \<le> x \<Longrightarrow> x < 2 ^ Suc k \<Longrightarrow> bit_length x = Suc k"
proof -
  assume a: "2 ^ k \<le> x" and b: "x < 2 ^ Suc k"
  have pos: "0 < x" using a by (cases "x = 0") auto
  have two: "(1::nat) < 2" by simp
  have "(2::nat) ^ k < 2 ^ bit_length x" using a bit_length_upper [of x] by linarith
  then have 1: "k < bit_length x" by (rule power_less_imp_less_exp [OF two])
  have "(2::nat) ^ (bit_length x - 1) < 2 ^ Suc k" using bit_length_lower [OF pos] b by linarith
  then have "bit_length x - 1 < Suc k" by (rule power_less_imp_less_exp [OF two])
  with 1 show ?thesis by linarith
qed

lemma u64_to_double_floor: "(x div 2 ^ (bit_length x - 53)) * 2 ^ (bit_length x - 53) \<le> u64_to_double x"
  by (simp add: u64_to_double_def Let_def)

lemma u64_to_double_lower: "2 ^ n \<le> x \<Longrightarrow> 2 ^ n \<le> u64_to_double x"
proof -
  assume h: "2 ^ n \<le> x"
  define e where "e = bit_length x - 53"
  have pos: "0 < x" using h by (cases "x = 0") auto
  have "2 ^ n \<le> (x div 2 ^ e) * 2 ^ e"
  proof (cases "e \<le> n")
    case True
    then have "(2::nat) ^ n = 2 ^ (n - e) * 2 ^ e"
      by (simp flip: power_add)
    moreover have "2 ^ (n - e) \<le> x div 2 ^ e"
      using h True by (simp add: less_eq_div_iff_mult_less_eq flip: power_add)
    ultimately show ?thesis by simp
  next
    case False
    have "(2::nat) ^ e \<le> 2 ^ (bit_length x - 1)"
      unfolding e_def by (rule power_increasing) auto
    then have "(2::nat) ^ e \<le> x"
      using bit_length_lower [OF pos] by linarith
    then have "1 \<le> x div 2 ^ e"
      by (simp add: less_eq_div_iff_mult_less_eq)
    then have "(2::nat) ^ e \<le> (x div 2 ^ e) * 2 ^ e" by simp
    moreover have "(2::nat) ^ n \<le> 2 ^ e" using False by simp
    ultimately show ?thesis by linarith
  qed
  then show ?thesis
    using u64_to_double_floor [of x] unfolding e_def by linarith
qed

lemma guard_less: "u64_to_double bits < 2 ^ n \<Longrightarrow> bits < 2 ^ n"
  using u64_to_double_lower [of n bits] by (cases "bits < 2 ^ n") auto

function exhaustive_loop :: "double \<Rightarrow> nat \<Rightarrow> nat \<Rightarrow> exhaustive_state \<Rightarrow> exhaustive_state" where
  "exhaustive_loop total_cost n bits st =
     (if u64_to_double bits < 2 ^ n then
        exhaustive_loop total_cost n (bits + 1)
          (consider_candidates total_cost (build_candidates (armors st) n bits) st)
      else st)"
  by pat_completeness auto
termination
  apply (relation "measure (\<lambda>(total_cost, n, bits, st). 2 ^ n - bits)")
   apply simp
  apply (auto dest!: guard_less)
  done

declare exhaustive_loop.simps [simp del]

text \<open>The counter is incremented only below \<open>2 ^ 63\<close>: it never wraps around.\<close>

lemma counter_does_not_wrap:
  "u64_to_double bits < 2 ^ n \<Longrightarrow> n < 64 \<Longrightarrow> bits + 1 < 2 ^ 64"
proof -
  assume g: "u64_to_double bits < 2 ^ n" and n: "n < 64"
  have "(2::nat) ^ n \<le> 2 ^ 63" using n by (intro power_increasing) auto
  then show ?thesis using guard_less [OF g] by simp
qed

text \<open>
  \<open>const int n = armors.size()\<close> keeps the low 32 bits of the size, read as a signed
  number, and the assertion is on \<open>n\<close>. A negative \<open>n\<close> passes it. Then \<open>pow(2,n)\<close> is
  \<open>0\<close> for \<open>n < -1074\<close> (the least positive \<open>double\<close> is \<open>2^-1074\<close>, and \<open>2^-1075\<close>
  rounds to \<open>0\<close>): the loop body never runs and the empty vector is returned. For the
  other negative \<open>n\<close> the loop body runs and its inner loop, which compares \<open>j\<close> with
  \<open>n\<close> converted to an unsigned 64-bit number, reaches the shift \<open>bits >> 64\<close>, whose
  behaviour is undefined.
\<close>

definition size_to_int :: "nat \<Rightarrow> int" where
  "size_to_int sz = sint (word_of_nat sz :: 32 word)"

definition exhaustive_run :: "ArmorVector \<Rightarrow> double \<Rightarrow> error + exhaustive_state" where
  "exhaustive_run armors0 total_cost =
     (let n = size_to_int (length armors0);
          st = \<lparr>armors = armors0, best_defense = Fin 0, bestVector = [], flag = False\<rparr>
      in if \<not> n < 64 then Inl AssertionFailure
         else if n < - 1074 then Inr st
         else if n < 0 then Inl UndefinedBehaviour
         else Inr (exhaustive_loop total_cost (nat n) 0 st))"

definition exhaustive_max_defense :: "ArmorVector \<Rightarrow> double \<Rightarrow> error + ArmorVector" where
  "exhaustive_max_defense armors0 total_cost =
     (case exhaustive_run armors0 total_cost of
        Inl e \<Rightarrow> Inl e
      | Inr st \<Rightarrow> Inr (bestVector st))"

section \<open>Notions used to state the properties\<close>

text \<open>The aggregate cost and defense of a vector, as \<open>sum_armor_vector\<close> computes them.\<close>

definition armor_cost :: "ArmorVector \<Rightarrow> double" where
  "armor_cost xs = fst (sum_armor_vector xs)"

definition armor_defense :: "ArmorVector \<Rightarrow> double" where
  "armor_defense xs = snd (sum_armor_vector xs)"

text \<open>
  The ranking key of the greedy solver and its test that an item fits the budget, both
  as the scan computes them.
\<close>

definition efficiency :: "ArmorItem \<Rightarrow> double" where
  "efficiency a = ddiv (defense a) (cost a)"

definition fits :: "double \<Rightarrow> double \<Rightarrow> ArmorItem \<Rightarrow> bool" where
  "fits rc tc a \<longleftrightarrow> dle (dadd rc (cost a)) tc"

text \<open>
  Position \<open>i\<close> is the choice of a scan of the first \<open>k\<close> positions: the item fits, its
  efficiency is greater than \<open>0.0\<close>, no fitting item among the first \<open>k\<close> has a greater
  efficiency and no fitting item before \<open>i\<close> has an efficiency at least as great.
\<close>

definition scan_best :: "ArmorVector \<Rightarrow> double \<Rightarrow> double \<Rightarrow> nat \<Rightarrow> nat \<Rightarrow> bool" where
  "scan_best td rc tc k i \<longleftrightarrow>
     i < k \<and> fits rc tc (td ! i) \<and> dlt (Fin 0) (efficiency (td ! i)) \<and>
     (\<forall>j<k. fits rc tc (td ! j) \<longrightarrow> \<not> dlt (efficiency (td ! i)) (efficiency (td ! j))) \<and>
     (\<forall>j<i. fits rc tc (td ! j) \<longrightarrow> \<not> dle (efficiency (td ! i)) (efficiency (td ! j)))"

definition scan_inv ::
  "ArmorVector \<Rightarrow> double \<Rightarrow> double \<Rightarrow> nat \<Rightarrow> ArmorItem \<times> double \<times> nat option \<Rightarrow> bool" where
  "scan_inv td rc tc k s \<longleftrightarrow>
     (case snd (snd s) of
        None \<Rightarrow> s = (td ! 0, Fin 0, None) \<and>
                (\<forall>j<k. fits rc tc (td ! j) \<longrightarrow> \<not> dlt (Fin 0) (efficiency (td ! j)))
      | Some i \<Rightarrow> s = (td ! i, efficiency (td ! i), Some i) \<and> scan_best td rc tc k i)"

definition greedy_step :: "greedy_state \<Rightarrow> nat \<Rightarrow> greedy_state" where
  "greedy_step st i =
     st\<lparr>result := result st @ [todo st ! i],
        result_cost := dadd (result_cost st) (cost (todo st ! i)),
        todo := erase (todo st) i\<rparr>"

text \<open>No item left in the pool fits the remaining budget with an efficiency above \<open>0.0\<close>.\<close>

definition greedy_final :: "double \<Rightarrow> greedy_state \<Rightarrow> bool" where
  "greedy_final tc st \<longleftrightarrow>
     (\<forall>j<length (todo st). fits (result_cost st) tc (todo st ! j) \<longrightarrow>
        \<not> dlt (Fin 0) (efficiency (todo st ! j)))"

definition greedy_inv :: "ArmorVector \<Rightarrow> double \<Rightarrow> greedy_state \<Rightarrow> bool" where
  "greedy_inv av tc st \<longleftrightarrow>
     armors st = av \<and> result_cost st = armor_cost (result st) \<and> dle (result_cost st) tc \<and>
     mset (result st) + mset (todo st) = mset av"

text \<open>The bit test of the inner loop of the exhaustive search.\<close>

definition mask_bit :: "nat \<Rightarrow> nat \<Rightarrow> bool" where
  "mask_bit bits j \<longleftrightarrow> (bits div 2 ^ j) mod 2 = 1"

text \<open>The value of the counter when the enumeration stops.\<close>

function exhaustive_loop_end :: "nat \<Rightarrow> nat \<Rightarrow> nat" where
  "exhaustive_loop_end n bits =
     (if u64_to_double bits < 2 ^ n then exhaustive_loop_end n (bits + 1) else bits)"
  by pat_completeness auto
termination
  apply (relation "measure (\<lambda>(n, bits). 2 ^ n - bits)")
   apply simp
  apply (auto dest!: guard_less)
  done

declare exhaustive_loop_end.simps [simp del]

definition feasible :: "double \<Rightarrow> ArmorVector \<Rightarrow> bool" where
  "feasible total_cost xs \<longleftrightarrow> dle (armor_cost xs) total_cost"

text \<open>
  The invariant of the enumeration, before mask \<open>b\<close> is examined: either no mask below
  \<open>b\<close> is feasible and nothing is stored, or the stored vector is the candidate of a
  feasible mask \<open>m < b\<close> whose defense no feasible mask below \<open>b\<close> exceeds and no
  feasible mask below \<open>m\<close> reaches.
\<close>

definition best_so_far :: "ArmorVector \<Rightarrow> double \<Rightarrow> nat \<Rightarrow> nat \<Rightarrow> nat \<Rightarrow> bool" where
  "best_so_far av total_cost n b m \<longleftrightarrow>
     m < b \<and> feasible total_cost (build_candidates av n m) \<and>
     (\<forall>k<b. feasible total_cost (build_candidates av n k) \<longrightarrow>
        \<not> dlt (armor_defense (build_candidates av n m)) (armor_defense (build_candidates av n k))) \<and>
     (\<forall>k<m. feasible total_cost (build_candidates av n k) \<longrightarrow>
        \<not> dle (armor_defense (build_candidates av n m)) (armor_defense (build_candidates av n k)))"

definition exhaustive_inv :: "ArmorVector \<Rightarrow> double \<Rightarrow> nat \<Rightarrow> nat \<Rightarrow> exhaustive_state \<Rightarrow> bool" where
  "exhaustive_inv av total_cost n b st \<longleftrightarrow>
     armors st = av \<and>
     (if flag st
      then \<exists>m. best_so_far av total_cost n b m \<and> bestVector st = build_candidates av n m \<and>
             best_defense st = armor_defense (build_candidates av n m)
      else bestVector st = [] \<and> (\<forall>k<b. \<not> feasible total_cost (build_candidates av n k)))"

definition exhaustive_init :: "ArmorVector \<Rightarrow> exhaustive_state" where
  "exhaustive_init av = \<lparr>armors = av, best_defense = Fin 0, bestVector = [], flag = False\<rparr>"

text \<open>Every set of positions is named by a mask below \<open>2 ^ n\<close>.\<close>

definition mask_of :: "nat \<Rightarrow> nat set \<Rightarrow> nat" where
  "mask_of n S = horner_sum of_bool 2 (map (\<lambda>j. j \<in> S) [0..<n])"

definition popcount :: "nat \<Rightarrow> nat \<Rightarrow> nat" where
  "popcount n m = length (filter (mask_bit m) [0..<n])"

text \<open>Items for the examples. Their costs and defenses are small integers.\<close>

definition helmet :: ArmorItem where
  "helmet = \<lparr>description = ''helmet'', cost = Fin 10, defense = Fin 5\<rparr>"

definition shield :: ArmorItem where
  "shield = \<lparr>description = ''shield'', cost = Fin 20, defense = Fin 7\<rparr>"

definition cloak :: ArmorItem where
  "cloak = \<lparr>description = ''cloak'', cost = Fin 1, defense = Fin 0\<rparr>"

definition plate :: ArmorItem where
  "plate = \<lparr>description = ''plate'', cost = Fin 1, defense = Fin 1\<rparr>"

definition sword :: ArmorItem where
  "sword = \<lparr>description = ''sword'', cost = Fin 20, defense = Fin 100\<rparr>"

definition gauntlet :: ArmorItem where
  "gauntlet = \<lparr>description = ''gauntlet'', cost = Fin 10, defense = Fin 60\<rparr>"

definition boots :: ArmorItem where
  "boots = \<lparr>description = ''boots'', cost = Fin 5, defense = Fin 30\<rparr>"

text \<open>
  Items at the limits of the format: the successor of \<open>2 ^ 53\<close> is not a binary64
  number, and \<open>2 ^ -1074\<close> is the least positive binary64 number.
\<close>

definition anvil :: ArmorItem where
  "anvil = \<lparr>description = ''anvil'', cost = Fin (2 ^ 53), defense = Fin (2 ^ 53)\<rparr>"

definition dust :: ArmorItem where
  "dust = \<lparr>description = ''dust'', cost = Fin 2, defense = Fin (2 powi (- 1074))\<rparr>"

text \<open>The pool and the result of the greedy solver on \<open>n\<close> plates with budget \<open>n\<close>.\<close>

definition plates_inv :: "nat \<Rightarrow> greedy_state \<Rightarrow> bool" where
  "plates_inv n st \<longleftrightarrow>
     (\<exists>k\<le>n. todo st = replicate k plate \<and> result st = replicate (n - k) plate \<and>
            result_cost st = Fin (real (n - k)))"

section \<open>Properties of the binary64 operations\<close>

lemma dlt_irrefl [simp]: "\<not> dlt a a"
  by (cases a) (simp_all add: dlt_def)

lemma dlt_trans: "dlt a b \<Longrightarrow> dlt b c \<Longrightarrow> dlt a c"
  by (cases a; cases b; cases c) (simp_all add: dlt_def)

lemma dlt_dle_trans: "dlt a b \<Longrightarrow> dle b c \<Longrightarrow> dlt a c"
  by (cases a; cases b; cases c) (simp_all add: dlt_def dle_def)

lemma dle_refl: "a \<noteq> NaN \<Longrightarrow> dle a a"
  by (simp add: dle_def)

lemma dlt_not_NaN: "dlt a b \<Longrightarrow> a \<noteq> NaN \<and> b \<noteq> NaN"
  by (cases a; cases b) (simp_all add: dlt_def)

lemma dlt_imp_dle: "dlt a b \<Longrightarrow> dle a b"
  by (cases a; cases b) (simp_all add: dlt_def dle_def)

lemma dle_not_dlt: "dle a b \<Longrightarrow> \<not> dlt b a"
  by (simp add: dle_def)

lemma not_dlt_dle: "a \<noteq> NaN \<Longrightarrow> b \<noteq> NaN \<Longrightarrow> \<not> dlt b a \<Longrightarrow> dle a b"
  by (simp add: dle_def)

lemma dlt_Fin [simp]: "dlt (Fin x) (Fin y) \<longleftrightarrow> x < y"
  by (simp add: dlt_def)

lemma dle_Fin [simp]: "dle (Fin x) (Fin y) \<longleftrightarrow> x \<le> y"
  by (auto simp: dle_def dlt_def)

text \<open>Natural numbers below \<open>2 ^ 53\<close> are binary64 numbers, and their sums are exact.\<close>

lemma bit_length_le_53: "n < 2 ^ 53 \<Longrightarrow> bit_length n \<le> 53"
proof (cases "n = 0")
  case True
  then show ?thesis by (simp add: bit_length.simps [of 0])
next
  case False
  assume "n < 2 ^ 53"
  then have "(2::nat) ^ (bit_length n - 1) < 2 ^ 53"
    using bit_length_lower [of n] False by linarith
  then have "bit_length n - 1 < 53"
    by (rule power_less_imp_less_exp [rotated]) simp
  then show ?thesis by simp
qed

lemma round_half_even_of_int [simp]: "round_half_even (of_int i) = i"
  by (simp add: round_half_even_def)

lemma round_half_even_nonneg: "0 \<le> y \<Longrightarrow> 0 \<le> round_half_even y"
  by (simp add: round_half_even_def Let_def)

lemma round64_nat:
  assumes "n < 2 ^ 53"
  shows "round64 (real n) = Fin (real n)"
proof (cases "n = 0")
  case True
  then show ?thesis by (simp add: round64_def)
next
  case False
  define g where "g = max (binade \<bar>real n\<bar> - 52) (- 1074)"
  have one: "1 \<le> real n" using False by simp
  have "binade \<bar>real n\<bar> = int (bit_length n) - 1"
    using one by (simp add: binade_def)
  then have "binade \<bar>real n\<bar> - 52 \<le> 0"
    using bit_length_le_53 [OF assms] by simp
  then have g0: "g \<le> 0" by (simp add: g_def)
  define k where "k = nat (- g)"
  have g: "g = - int k" using g0 by (simp add: k_def)
  have p: "(2::real) powi g = 1 / 2 ^ k"
    by (simp add: g power_int_minus field_simps)
  have y: "\<bar>real n\<bar> / 2 powi g = of_int (int (n * 2 ^ k))"
    by (simp add: p)
  have r: "of_int (round_half_even (\<bar>real n\<bar> / 2 powi g)) * (2::real) powi g = real n"
    unfolding y round_half_even_of_int by (simp add: p)
  have small: "\<not> overflow_bound \<le> real n"
  proof -
    have "real n < 2 ^ 53" using assms by (metis of_nat_less_iff of_nat_numeral of_nat_power)
    moreover have "(2::real) ^ 53 \<le> 2 ^ 1024" by (rule power_increasing) simp_all
    ultimately show ?thesis unfolding overflow_bound_def by linarith
  qed
  have "round64 (real n) =
        (let r = of_int (round_half_even (\<bar>real n\<bar> / 2 powi g)) * 2 powi g
         in if overflow_bound \<le> r then (if 0 < real n then PInf else NInf)
            else Fin (sgn (real n) * r))"
    using False unfolding round64_def g_def by (simp add: Let_def)
  also have "\<dots> = Fin (real n)"
    unfolding Let_def r using small False by simp
  finally show ?thesis .
qed

lemma binary64_nat: "n < 2 ^ 53 \<Longrightarrow> binary64 (Fin (real n))"
  by (simp add: binary64_def round64_nat)

lemma dadd_nat: "m + n < 2 ^ 53 \<Longrightarrow> dadd (Fin (real m)) (Fin (real n)) = Fin (real (m + n))"
  using round64_nat [of "m + n"] by (simp add: dadd_def)

lemma ddiv_nat:
  "0 < n \<Longrightarrow> q < 2 ^ 53 \<Longrightarrow> ddiv (Fin (real (q * n))) (Fin (real n)) = Fin (real q)"
  using round64_nat [of q] by (simp add: ddiv_def)

text \<open>A rounded result above \<open>0.0\<close> comes from an exact result above \<open>0\<close>.\<close>

lemma round64_pos: "dlt (Fin 0) (round64 r) \<Longrightarrow> 0 < r"
proof (rule ccontr)
  assume h: "dlt (Fin 0) (round64 r)" and n: "\<not> 0 < r"
  show False
  proof (cases "r = 0")
    case True
    then show ?thesis using h by (simp add: round64_def)
  next
    case False
    then have neg: "r < 0" using n by simp
    define g where "g = max (binade \<bar>r\<bar> - 52) (- 1074)"
    define R where "R = of_int (round_half_even (\<bar>r\<bar> / 2 powi g)) * (2::real) powi g"
    have "0 \<le> \<bar>r\<bar> / 2 powi g" by simp
    then have "0 \<le> round_half_even (\<bar>r\<bar> / 2 powi g)" by (rule round_half_even_nonneg)
    then have R: "0 \<le> R" by (simp add: R_def)
    have "round64 r = (if overflow_bound \<le> R then NInf else Fin (- R))"
      using False neg unfolding round64_def g_def R_def by (simp add: Let_def)
    then show ?thesis using h R by (simp add: dlt_def split: if_splits)
  qed
qed

lemma dadd_zero_left: "binary64 d \<Longrightarrow> dadd (Fin 0) d = d"
  by (cases d) (simp_all add: binary64_def dadd_def)

text \<open>
  A quotient above \<open>0.0\<close> by a positive cost has a dividend above \<open>0.0\<close>. The converse
  fails: the quotient of the least positive number by 2 rounds to \<open>0.0\<close>.
\<close>

lemma ddiv_pos:
  assumes "dlt (Fin 0) c" "dlt (Fin 0) (ddiv d c)"
  shows "dlt (Fin 0) d"
proof (cases c)
  case (Fin y)
  then have y: "0 < y" using assms(1) by simp
  show ?thesis
  proof (cases d)
    case (Fin x)
    then have "dlt (Fin 0) (round64 (x / y))"
      using assms(2) y \<open>c = Fin y\<close> by (simp add: ddiv_def)
    then have "0 < x / y" by (rule round64_pos)
    then show ?thesis using y Fin by (simp add: zero_less_divide_iff)
  next
    case PInf
    then show ?thesis by (simp add: dlt_def)
  next
    case NInf
    then show ?thesis using assms(2) y \<open>c = Fin y\<close> by (simp add: ddiv_def dlt_def)
  next
    case NaN
    then show ?thesis using assms(2) by (simp add: ddiv_def dlt_def)
  qed
next
  case PInf
  then show ?thesis using assms(2) by (cases d) (simp_all add: ddiv_def dlt_def)
next
  case NInf
  then show ?thesis using assms(1) by (simp add: dlt_def)
next
  case NaN
  then show ?thesis using assms(1) by (simp add: dlt_def)
qed

subsection \<open>Examples of rounding\<close>

lemma round64_zero [simp]: "round64 0 = Fin 0"
  by (simp add: round64_def)

lemma round64_one: "round64 1 = Fin 1"
  using round64_nat [of 1] by simp

lemma round64_two: "round64 2 = Fin 2"
  using round64_nat [of 2] by simp

lemma round64_numeral: "numeral w < (2::nat) ^ 53 \<Longrightarrow> round64 (numeral w) = Fin (numeral w)"
  using round64_nat [of "numeral w"] by simp

lemma bit_length_2p53: "bit_length (2 ^ 53) = 54" "bit_length (2 ^ 53 + 1) = 54"
proof -
  show "bit_length (2 ^ 53) = 54"
    using bit_length_eqI [of 53 "2 ^ 53"] by simp
  show "bit_length (2 ^ 53 + 1) = 54"
    using bit_length_eqI [of 53 "2 ^ 53 + 1"] by simp
qed

lemma binade_2p53: "binade (2 ^ 53) = 53" "binade (2 ^ 53 + 1) = 53"
proof -
  have "nat \<lfloor>(2::real) ^ 53\<rfloor> = 2 ^ 53" by simp
  then show "binade (2 ^ 53) = 53"
    unfolding binade_def by (simp only: bit_length_2p53) simp
  have "nat \<lfloor>(2::real) ^ 53 + 1\<rfloor> = 2 ^ 53 + 1" by simp
  then show "binade (2 ^ 53 + 1) = 53"
    unfolding binade_def by (simp only: bit_length_2p53) simp
qed

lemma round64_eval:
  assumes "0 < x" "max (binade x - 52) (- 1074) = g" "round_half_even (x / 2 powi g) = n"
    "real_of_int n * 2 powi g < overflow_bound"
  shows "round64 x = Fin (real_of_int n * 2 powi g)"
proof -
  have a: "\<bar>x\<bar> = x" using assms(1) by simp
  show ?thesis
    unfolding round64_def Let_def a assms(2) assms(3) using assms(1,4) by simp
qed

lemma overflow_bound_gt: "k \<le> 1023 \<Longrightarrow> 2 ^ k < overflow_bound"
  unfolding overflow_bound_def by (rule power_strict_increasing) simp_all

lemma round64_2p53: "round64 (2 ^ 53) = Fin (2 ^ 53)"
proof -
  have "round64 (2 ^ 53) = Fin (real_of_int (2 ^ 52) * 2 powi 1)"
  proof (rule round64_eval)
    show "max (binade (2 ^ 53) - 52) (- 1074) = 1" unfolding binade_2p53 by simp
    show "round_half_even (2 ^ 53 / 2 powi 1) = 2 ^ 52" by (simp add: round_half_even_def)
    have "real_of_int (2 ^ 52) * 2 powi 1 = 2 ^ 53" by simp
    then show "real_of_int (2 ^ 52) * 2 powi 1 < overflow_bound"
      using overflow_bound_gt [of 53] by simp
  qed simp
  then show ?thesis by simp
qed

lemma round64_2p53_1: "round64 (2 ^ 53 + 1) = Fin (2 ^ 53)"
proof -
  have "round64 (2 ^ 53 + 1) = Fin (real_of_int (2 ^ 52) * 2 powi 1)"
  proof (rule round64_eval)
    show "max (binade (2 ^ 53 + 1) - 52) (- 1074) = 1" unfolding binade_2p53 by simp
    show "round_half_even ((2 ^ 53 + 1) / 2 powi 1) = 2 ^ 52" by (simp add: round_half_even_def)
    have "real_of_int (2 ^ 52) * 2 powi 1 = 2 ^ 53" by simp
    then show "real_of_int (2 ^ 52) * 2 powi 1 < overflow_bound"
      using overflow_bound_gt [of 53] by simp
  qed simp
  then show ?thesis by simp
qed

text \<open>The sum of \<open>2 ^ 53\<close> and \<open>1\<close> is rounded to \<open>2 ^ 53\<close>.\<close>

lemma dadd_rounds: "dadd (Fin (2 ^ 53)) (Fin 1) = Fin (2 ^ 53)"
  by (simp only: dadd_def prod.case double.case round64_2p53_1)

lemma powi_neg: "(2::real) powi (- int k) = 1 / 2 ^ k"
  by (simp add: power_int_minus field_simps)

lemma binade_powi_neg:
  assumes "0 < k"
  shows "binade (2 powi (- int k)) = - int k"
proof -
  have a: "(2::real) powi (- int k) = 1 / 2 ^ k" by (rule powi_neg)
  have "(1::real) < 2 ^ k" using assms by (simp add: one_less_power)
  then have lt: "\<not> 1 \<le> (2::real) powi (- int k)" unfolding a by simp
  have f: "nat \<lfloor>1 / (2::real) powi (- int k)\<rfloor> = 2 ^ k" unfolding a by simp
  have l: "bit_length (2 ^ k) = Suc k" by (rule bit_length_eqI) simp_all
  have b: "int (bit_length (nat \<lfloor>1 / (2::real) powi (- int k)\<rfloor>)) = int k + 1"
    unfolding f l by simp
  show ?thesis
    unfolding binade_def Let_def b using lt by simp
qed

lemma half_powi: "(2::real) powi (- int k) / 2 = 2 powi (- int (Suc k))"
  unfolding powi_neg by simp

text \<open>
  The least positive binary64 number is \<open>2 ^ -1074\<close>; its quotient by 2 lies halfway
  between \<open>0\<close> and this number, and is rounded to \<open>0.0\<close>.
\<close>

lemma round64_least: "round64 (2 powi (- 1074)) = Fin (2 powi (- 1074))"
proof -
  have b: "binade (2 powi (- 1074)) = - 1074"
    using binade_powi_neg [of 1074] by simp
  have "round64 (2 powi (- 1074)) = Fin (real_of_int 1 * 2 powi (- 1074))"
  proof (rule round64_eval)
    show "max (binade (2 powi (- 1074)) - 52) (- 1074) = - 1074" unfolding b by simp
    show "round_half_even (2 powi (- 1074) / 2 powi (- 1074)) = 1"
      by (simp add: round_half_even_def)
    have "(2::real) powi (- 1074) \<le> 2 powi 0" by (rule power_int_increasing) simp_all
    then show "real_of_int 1 * 2 powi (- 1074) < overflow_bound"
      using overflow_bound_gt [of 1] by simp
  qed simp
  then show ?thesis by simp
qed

lemma round64_half_least: "round64 (2 powi (- 1075)) = Fin 0"
proof -
  have b: "binade (2 powi (- 1075)) = - 1075"
    using binade_powi_neg [of 1075] by simp
  have h: "(2::real) powi (- 1075) / 2 powi (- 1074) = 1 / 2"
    using half_powi [of 1074] by (simp add: field_simps)
  have "round64 (2 powi (- 1075)) = Fin (real_of_int 0 * 2 powi (- 1074))"
  proof (rule round64_eval)
    show "max (binade (2 powi (- 1075)) - 52) (- 1074) = - 1074" unfolding b by simp
    show "round_half_even (2 powi (- 1075) / 2 powi (- 1074)) = 0"
      unfolding h by (simp add: round_half_even_def)
    show "real_of_int 0 * 2 powi (- 1074) < overflow_bound"
      using overflow_bound_gt [of 1] by simp
  qed simp
  then show ?thesis by simp
qed

lemma ddiv_underflows: "ddiv (Fin (2 powi (- 1074))) (Fin 2) = Fin 0"
proof -
  have "(2::real) powi (- 1074) / 2 = 2 powi (- 1075)"
    using half_powi [of 1074] by simp
  moreover have "ddiv (Fin x) (Fin 2) = round64 (x / 2)" for x
    by (simp add: ddiv_def)
  ultimately show ?thesis by (simp only: round64_half_least)
qed

text \<open>
  The binary64 numbers nearest to \<open>0.1\<close> and \<open>0.4\<close> are \<open>3602879701896397 / 2 ^ 55\<close> and
  \<open>3602879701896397 / 2 ^ 53\<close>. Their exact sum is above \<open>0.5\<close>, and is rounded to \<open>0.5\<close>.
\<close>

lemma binade_half: "1 / 2 \<le> x \<Longrightarrow> x < 1 \<Longrightarrow> binade x = - 1"
proof -
  assume a: "1 / 2 \<le> x" and b: "x < 1"
  have "1 < 1 / x" "1 / x \<le> 2" using a b by (simp_all add: field_simps)
  then have "\<lfloor>1 / x\<rfloor> = 1 \<or> \<lfloor>1 / x\<rfloor> = 2" by linarith
  then have "nat \<lfloor>1 / x\<rfloor> = 1 \<or> nat \<lfloor>1 / x\<rfloor> = 2" by auto
  moreover have "bit_length 1 = 1" "bit_length 2 = 2"
    using bit_length_eqI [of 0 1] bit_length_eqI [of 1 2] by simp_all
  ultimately have "bit_length (nat \<lfloor>1 / x\<rfloor>) = 1 \<or> bit_length (nat \<lfloor>1 / x\<rfloor>) = 2"
    by auto
  then show ?thesis
    unfolding binade_def Let_def using a b by auto
qed

lemma dadd_tenths:
  "dadd (Fin (3602879701896397 / 2 ^ 55)) (Fin (3602879701896397 / 2 ^ 53)) = Fin (1 / 2)"
proof -
  define x :: real where "x = 3602879701896397 / 2 ^ 55 + 3602879701896397 / 2 ^ 53"
  have x: "1 / 2 < x" "x < 1" by (simp_all add: x_def)
  have "round64 x = Fin (real_of_int (2 ^ 52) * 2 powi (- 53))"
  proof (rule round64_eval)
    show "0 < x" using x by simp
    show "max (binade x - 52) (- 1074) = - 53" using binade_half [of x] x by simp
    have p: "(2::real) powi (- 53) = 1 / 2 ^ 53" using powi_neg [of 53] by simp
    have y: "x / 2 powi (- 53) = 2 ^ 52 + 1 / 4" unfolding p x_def by simp
    have "\<lfloor>(2::real) ^ 52 + 1 / 4\<rfloor> = 2 ^ 52" by simp
    then show "round_half_even (x / 2 powi (- 53)) = 2 ^ 52"
      unfolding y round_half_even_def Let_def by simp
    have "real_of_int (2 ^ 52) * 2 powi (- 53) = 1 / 2" unfolding p by simp
    then show "real_of_int (2 ^ 52) * 2 powi (- 53) < overflow_bound"
      using overflow_bound_gt [of 1] by simp
  qed
  moreover have "real_of_int (2 ^ 52) * 2 powi (- 53) = 1 / 2"
    using powi_neg [of 53] by simp
  ultimately show ?thesis unfolding dadd_def x_def by (simp only: prod.case double.case)
qed

section \<open>Properties of sum_armor_vector\<close>

lemma sum_armor_vector_Nil: "sum_armor_vector [] = (Fin 0, Fin 0)"
  by (simp add: sum_armor_vector_def)

lemma sum_armor_vector_snoc:
  "sum_armor_vector (xs @ [a]) =
     (dadd (fst (sum_armor_vector xs)) (cost a), dadd (snd (sum_armor_vector xs)) (defense a))"
  by (simp add: sum_armor_vector_def split: prod.splits)

lemma sum_armor_vector_pair: "sum_armor_vector xs = (armor_cost xs, armor_defense xs)"
  by (simp add: armor_cost_def armor_defense_def)

lemma armor_cost_Nil [simp]: "armor_cost [] = Fin 0"
  by (simp add: armor_cost_def sum_armor_vector_Nil)

lemma armor_defense_Nil [simp]: "armor_defense [] = Fin 0"
  by (simp add: armor_defense_def sum_armor_vector_Nil)

lemma armor_cost_snoc: "armor_cost (xs @ [a]) = dadd (armor_cost xs) (cost a)"
  by (simp add: armor_cost_def sum_armor_vector_snoc)

lemma armor_defense_snoc: "armor_defense (xs @ [a]) = dadd (armor_defense xs) (defense a)"
  by (simp add: armor_defense_def sum_armor_vector_snoc)

lemma armor_cost_single: "armor_cost [a] = dadd (Fin 0) (cost a)"
  using armor_cost_snoc [of "[]" a] by simp

lemma armor_defense_single: "armor_defense [a] = dadd (Fin 0) (defense a)"
  using armor_defense_snoc [of "[]" a] by simp

lemma armor_cost_replicate_plate:
  "k < 2 ^ 53 \<Longrightarrow> armor_cost (replicate k plate) = Fin (real k)"
proof (induction k)
  case 0
  then show ?case by simp
next
  case (Suc k)
  have "replicate (Suc k) plate = replicate k plate @ [plate]"
    by (simp only: replicate_append_same replicate_Suc)
  then have "armor_cost (replicate (Suc k) plate) = dadd (armor_cost (replicate k plate)) (Fin (real 1))"
    by (simp only: armor_cost_snoc) (simp add: plate_def)
  also have "\<dots> = dadd (Fin (real k)) (Fin (real 1))" using Suc by simp
  also have "\<dots> = Fin (real (k + 1))" using Suc.prems by (intro dadd_nat) simp
  finally show ?case by simp
qed

lemma armor_defense_replicate_plate:
  "k < 2 ^ 53 \<Longrightarrow> armor_defense (replicate k plate) = Fin (real k)"
proof (induction k)
  case 0
  then show ?case by simp
next
  case (Suc k)
  have "replicate (Suc k) plate = replicate k plate @ [plate]"
    by (simp only: replicate_append_same replicate_Suc)
  then have "armor_defense (replicate (Suc k) plate) =
             dadd (armor_defense (replicate k plate)) (Fin (real 1))"
    by (simp only: armor_defense_snoc) (simp add: plate_def)
  also have "\<dots> = dadd (Fin (real k)) (Fin (real 1))" using Suc by simp
  also have "\<dots> = Fin (real (k + 1))" using Suc.prems by (intro dadd_nat) simp
  finally show ?case by simp
qed

section \<open>Properties of filter_armor_vector\<close>

text \<open>
  The result is a prefix of the matching items. Its length is the limit as the unsigned
  comparison reads it, and at least one, since the comparison comes after the push.
\<close>
lemma filter_loop_eq:
  "filter_loop source mn mx ts acc =
     acc @ take (max 1 (int_to_size_t ts - length acc)) (filter (armor_matches mn mx) source)"
proof (induction source arbitrary: acc)
  case Nil
  then show ?case by simp
next
  case (Cons a source)
  show ?case
  proof (cases "armor_matches mn mx a")
    case False
    then show ?thesis using Cons by simp
  next
    case True
    show ?thesis
    proof (cases "int_to_size_t ts \<le> Suc (length acc)")
      case True
      then have "max 1 (int_to_size_t ts - length acc) = 1" by simp
      with True \<open>armor_matches mn mx a\<close> show ?thesis by (simp add: Let_def)
    next
      case False
      then have "max 1 (int_to_size_t ts - length acc) = Suc (max 1 (int_to_size_t ts - Suc (length acc)))"
        by simp
      with False \<open>armor_matches mn mx a\<close> show ?thesis
        by (simp add: Let_def Cons.IH)
    qed
  qed
qed

lemma filter_armor_vector_eq:
  "filter_armor_vector source mn mx ts =
     take (max 1 (int_to_size_t ts)) (filter (armor_matches mn mx) source)"
  by (simp add: filter_armor_vector_def filter_loop_eq)

lemma int_to_size_t_pos: "0 \<le> sint ts \<Longrightarrow> int_to_size_t ts = nat (sint ts)"
proof -
  assume h: "0 \<le> sint ts"
  have "sint ts < 2 ^ 31" using sint_lt [of ts] by simp
  then have "sint ts < 2 ^ 64" by simp
  with h show ?thesis by (simp add: int_to_size_t_def)
qed

lemma int_to_size_t_neg: "sint ts < 0 \<Longrightarrow> int_to_size_t ts = nat (2 ^ 64 + sint ts)"
proof -
  assume h: "sint ts < 0"
  have "- (2 ^ 31) \<le> sint ts" using sint_ge [of ts] by simp
  then have "0 \<le> 2 ^ 64 + sint ts" "2 ^ 64 + sint ts < 2 ^ 64" using h by simp_all
  then have "(2 ^ 64 + sint ts) mod 2 ^ 64 = 2 ^ 64 + sint ts" by (rule mod_pos_pos_trivial)
  moreover have "(2 ^ 64 + sint ts) mod 2 ^ 64 = sint ts mod 2 ^ 64" by (rule mod_add_self1)
  ultimately show ?thesis unfolding int_to_size_t_def by presburger
qed

lemma filter_armor_vector_positive:
  "0 < sint ts \<Longrightarrow>
   filter_armor_vector source mn mx ts = take (nat (sint ts)) (filter (armor_matches mn mx) source)"
proof -
  assume h: "0 < sint ts"
  then have "max 1 (int_to_size_t ts) = nat (sint ts)"
    by (simp add: int_to_size_t_pos max_def)
  then show ?thesis by (simp add: filter_armor_vector_eq)
qed

section \<open>Properties of greedy_max_defense\<close>

subsection \<open>The scan\<close>

lemma scan_inv_step:
  assumes "scan_inv td rc tc k s"
  shows "scan_inv td rc tc (Suc k) (scan_step td rc tc k s)"
proof (cases "fits rc tc (td ! k) \<and> dlt (fst (snd s)) (efficiency (td ! k))")
  case True
  then have step: "scan_step td rc tc k s = (td ! k, efficiency (td ! k), Some k)"
    by (simp add: scan_step_def fits_def efficiency_def Let_def)
  define v where "v = fst (snd s)"
  have v: "dlt v (efficiency (td ! k))" using True by (simp add: v_def)
  have low: "\<forall>j<k. fits rc tc (td ! j) \<longrightarrow> \<not> dlt v (efficiency (td ! j))"
    and pos: "v = Fin 0 \<or> dlt (Fin 0) v"
    using assms unfolding v_def scan_inv_def scan_best_def
    by (auto split: option.splits)
  have p: "dlt (Fin 0) (efficiency (td ! k))"
    using pos v dlt_trans by blast
  have a: "\<not> dlt (efficiency (td ! k)) (efficiency (td ! j))"
    if "j < Suc k" "fits rc tc (td ! j)" for j
  proof (cases "j = k")
    case True
    then show ?thesis by simp
  next
    case False
    then have "j < k" using that by simp
    then have "\<not> dlt v (efficiency (td ! j))" using low that by blast
    then show ?thesis using v dlt_trans by blast
  qed
  have b: "\<not> dle (efficiency (td ! k)) (efficiency (td ! j))"
    if "j < k" "fits rc tc (td ! j)" for j
  proof -
    have "\<not> dlt v (efficiency (td ! j))" using low that by blast
    then show ?thesis using v dlt_dle_trans by blast
  qed
  have "scan_best td rc tc (Suc k) k"
    unfolding scan_best_def using True p a b by simp
  then show ?thesis by (simp add: step scan_inv_def)
next
  case False
  then have step: "scan_step td rc tc k s = s"
    by (auto simp: scan_step_def fits_def efficiency_def Let_def)
  show ?thesis
  proof (cases "snd (snd s)")
    case None
    then show ?thesis using assms False unfolding step
      by (auto simp: scan_inv_def less_Suc_eq)
  next
    case (Some i)
    then show ?thesis using assms False unfolding step
      by (auto simp: scan_inv_def scan_best_def less_Suc_eq)
  qed
qed

lemma scan_inv_fold:
  "scan_inv td rc tc k (fold (scan_step td rc tc) [0..<k] (td ! 0, Fin 0, None))"
proof (induction k)
  case 0
  then show ?case by (simp add: scan_inv_def)
next
  case (Suc k)
  then show ?case by (simp add: scan_inv_step)
qed

lemma greedy_scan_inv: "scan_inv td rc tc (length td) (greedy_scan td rc tc)"
  unfolding greedy_scan_def by (rule scan_inv_fold)

text \<open>
  The scan finds no item exactly when no item of the pool fits the remaining budget with
  an efficiency above \<open>0.0\<close>; otherwise it returns the choice described by \<open>scan_best\<close>,
  which is unique.
\<close>

lemma greedy_scan_None:
  "snd (snd (greedy_scan td rc tc)) = None \<longleftrightarrow>
   (\<forall>j<length td. fits rc tc (td ! j) \<longrightarrow> \<not> dlt (Fin 0) (efficiency (td ! j)))"
  using greedy_scan_inv [of td rc tc]
  by (cases "snd (snd (greedy_scan td rc tc))")
     (fastforce simp: scan_inv_def scan_best_def)+

lemma greedy_scan_Some:
  "greedy_scan td rc tc = (a, v, Some i) \<Longrightarrow>
   a = td ! i \<and> v = efficiency (td ! i) \<and> scan_best td rc tc (length td) i"
  using greedy_scan_inv [of td rc tc] by (simp add: scan_inv_def)

lemma scan_best_unique:
  assumes "scan_best td rc tc k i" "scan_best td rc tc k j"
  shows "i = j"
proof -
  have aux: False if "scan_best td rc tc k i" "scan_best td rc tc k j" "i < j" for i j
  proof -
    have fi: "fits rc tc (td ! i)" and pi: "dlt (Fin 0) (efficiency (td ! i))"
      and jk: "j < k" and fj: "fits rc tc (td ! j)" and pj: "dlt (Fin 0) (efficiency (td ! j))"
      using that by (simp_all add: scan_best_def)
    have "\<not> dlt (efficiency (td ! i)) (efficiency (td ! j))"
      using that(1) jk fj by (simp add: scan_best_def)
    moreover have "\<not> dle (efficiency (td ! j)) (efficiency (td ! i))"
      using that(2,3) fi by (simp add: scan_best_def)
    ultimately show False
      using dlt_not_NaN [OF pi] dlt_not_NaN [OF pj] by (simp add: dle_def)
  qed
  show ?thesis using aux [of i j] aux [of j i] assms by (meson linorder_neqE_nat)
qed

text \<open>
  For an item whose cost is a binary64 number the first round's test is the comparison
  of the cost with the budget.
\<close>

lemma fits_zero: "binary64 (cost a) \<Longrightarrow> fits (Fin 0) tc a \<longleftrightarrow> dle (cost a) tc"
  by (simp add: fits_def dadd_zero_left)

lemma efficiency_pos: "valid_armor a \<Longrightarrow> dlt (Fin 0) (efficiency a) \<Longrightarrow> dlt (Fin 0) (defense a)"
  unfolding valid_armor_def efficiency_def using ddiv_pos by blast

subsection \<open>The loop\<close>

lemma greedy_loop_stop:
  "todo st = [] \<or> snd (snd (greedy_scan (todo st) (result_cost st) tc)) = None \<Longrightarrow>
   greedy_loop tc st = st"
  by (subst greedy_loop.simps) (auto split: prod.splits option.splits)

lemma greedy_loop_step:
  "todo st \<noteq> [] \<Longrightarrow> greedy_scan (todo st) (result_cost st) tc = (a, v, Some i) \<Longrightarrow>
   greedy_loop tc st = greedy_loop tc (greedy_step st i)"
  by (subst greedy_loop.simps) (auto simp: greedy_step_def dest: greedy_scan_Some)

lemma greedy_loop_induct [case_names round]:
  assumes "\<And>st. (\<And>a v i. todo st \<noteq> [] \<Longrightarrow>
                greedy_scan (todo st) (result_cost st) tc = (a, v, Some i) \<Longrightarrow>
                Q (greedy_step st i)) \<Longrightarrow> Q st"
  shows "Q st"
proof -
  have "tc' = tc \<Longrightarrow> Q st" for tc'
  proof (induction tc' st rule: greedy_loop.induct)
    case (1 total_cost st)
    show ?case
    proof (rule assms)
      fix a v i
      assume ne: "todo st \<noteq> []"
        and scan: "greedy_scan (todo st) (result_cost st) tc = (a, v, Some i)"
      have a: "a = todo st ! i" using greedy_scan_Some [OF scan] by simp
      have "Q (st\<lparr>result := result st @ [a], result_cost := dadd (result_cost st) (cost a),
                   todo := erase (todo st) i\<rparr>)"
        using 1(1) [of a "(v, Some i)" v "Some i" i] ne scan 1(2) by simp
      then show "Q (greedy_step st i)" by (simp add: greedy_step_def a)
    qed
  qed
  then show ?thesis by simp
qed

lemma greedy_loop_rule [consumes 1, case_names step]:
  assumes "P st"
    and "\<And>st i. P st \<Longrightarrow> todo st \<noteq> [] \<Longrightarrow>
           scan_best (todo st) (result_cost st) tc (length (todo st)) i \<Longrightarrow>
           P (greedy_step st i)"
  shows "P (greedy_loop tc st)"
  using assms(1)
proof (induction st rule: greedy_loop_induct [where tc = tc])
  case (round st)
  show ?case
  proof (cases "todo st = [] \<or> snd (snd (greedy_scan (todo st) (result_cost st) tc)) = None")
    case True
    then show ?thesis using round(2) by (simp add: greedy_loop_stop)
  next
    case False
    then obtain a v i where scan: "greedy_scan (todo st) (result_cost st) tc = (a, v, Some i)"
      and ne: "todo st \<noteq> []"
      by (cases "greedy_scan (todo st) (result_cost st) tc") auto
    have "scan_best (todo st) (result_cost st) tc (length (todo st)) i"
      using greedy_scan_Some [OF scan] by simp
    then have "P (greedy_step st i)" using round(2) ne by (intro assms(2))
    then have "P (greedy_loop tc (greedy_step st i))"
      using round(1) [OF ne scan] by simp
    then show ?thesis using greedy_loop_step [OF ne scan] by simp
  qed
qed

lemma greedy_loop_final: "greedy_final tc (greedy_loop tc st)"
proof (induction st rule: greedy_loop_induct [where tc = tc])
  case (round st)
  show ?case
  proof (cases "todo st = [] \<or> snd (snd (greedy_scan (todo st) (result_cost st) tc)) = None")
    case True
    then have "greedy_final tc st"
      by (auto simp: greedy_final_def greedy_scan_None)
    then show ?thesis using True by (simp add: greedy_loop_stop)
  next
    case False
    then obtain a v i where scan: "greedy_scan (todo st) (result_cost st) tc = (a, v, Some i)"
      and ne: "todo st \<noteq> []"
      by (cases "greedy_scan (todo st) (result_cost st) tc") auto
    show ?thesis using round [OF ne scan] greedy_loop_step [OF ne scan] by simp
  qed
qed

lemma mset_erase: "i < length xs \<Longrightarrow> add_mset (xs ! i) (mset (erase xs i)) = mset xs"
  by (metis erase_def id_take_nth_drop mset.simps(2) mset_append union_mset_add_mset_right)

lemma greedy_inv_step:
  assumes "greedy_inv av tc st" "scan_best (todo st) (result_cost st) tc (length (todo st)) i"
  shows "greedy_inv av tc (greedy_step st i)"
proof -
  have i: "i < length (todo st)"
    and f: "dle (dadd (result_cost st) (cost (todo st ! i))) tc"
    using assms(2) by (simp_all add: scan_best_def fits_def)
  have "mset (result st @ [todo st ! i]) + mset (erase (todo st) i) =
        mset (result st) + add_mset (todo st ! i) (mset (erase (todo st) i))"
    by simp
  also have "\<dots> = mset (result st) + mset (todo st)"
    by (simp only: mset_erase [OF i])
  also have "\<dots> = mset av" using assms(1) by (simp add: greedy_inv_def)
  finally have ms: "mset (result (greedy_step st i)) + mset (todo (greedy_step st i)) = mset av"
    by (simp add: greedy_step_def)
  have "armors (greedy_step st i) = av"
    and "result_cost (greedy_step st i) = armor_cost (result (greedy_step st i))"
    and "dle (result_cost (greedy_step st i)) tc"
    using assms(1) f by (simp_all add: greedy_inv_def greedy_step_def armor_cost_snoc)
  with ms show ?thesis unfolding greedy_inv_def by blast
qed

lemma greedy_run_inv: "dle (Fin 0) tc \<Longrightarrow> greedy_inv av tc (greedy_run av tc)"
proof -
  assume "dle (Fin 0) tc"
  then have "greedy_inv av tc \<lparr>armors = av, todo = av, result = [], result_cost = Fin 0\<rparr>"
    by (simp add: greedy_inv_def)
  then show ?thesis
    unfolding greedy_run_def
    by (rule greedy_loop_rule) (rule greedy_inv_step)
qed

text \<open>
  The cost of the greedy solution, summed as \<open>sum_armor_vector\<close> sums it, is within a
  budget that is at least \<open>0.0\<close>.
\<close>

lemma greedy_feasible: "dle (Fin 0) tc \<Longrightarrow> dle (armor_cost (greedy_max_defense av tc)) tc"
  using greedy_run_inv [of tc av] unfolding greedy_inv_def greedy_max_defense_def by metis

lemma greedy_armors: "armors (greedy_run av tc) = av"
proof -
  have "armors (greedy_loop tc \<lparr>armors = av, todo = av, result = [], result_cost = Fin 0\<rparr>) = av"
    by (rule greedy_loop_rule [where P = "\<lambda>st. armors st = av"]) (simp_all add: greedy_step_def)
  then show ?thesis by (simp add: greedy_run_def)
qed

lemma greedy_round_select:
  assumes "\<exists>a \<in> set (todo st). fits (result_cost st) tc a \<and> dlt (Fin 0) (efficiency a)"
  shows "\<exists>i. scan_best (todo st) (result_cost st) tc (length (todo st)) i \<and>
             greedy_loop tc st = greedy_loop tc (greedy_step st i)"
proof -
  obtain j where j: "j < length (todo st)" "fits (result_cost st) tc (todo st ! j)"
    "dlt (Fin 0) (efficiency (todo st ! j))"
    using assms by (auto simp: in_set_conv_nth)
  then have "snd (snd (greedy_scan (todo st) (result_cost st) tc)) \<noteq> None"
    by (auto simp: greedy_scan_None)
  then obtain a v i where scan: "greedy_scan (todo st) (result_cost st) tc = (a, v, Some i)"
    by (cases "greedy_scan (todo st) (result_cost st) tc") auto
  have ne: "todo st \<noteq> []" using j(1) by auto
  show ?thesis
    using greedy_scan_Some [OF scan] greedy_loop_step [OF ne scan] by blast
qed

lemma greedy_round_stop:
  assumes "\<not> (\<exists>a \<in> set (todo st). fits (result_cost st) tc a \<and> dlt (Fin 0) (efficiency a))"
  shows "greedy_loop tc st = st"
proof (rule greedy_loop_stop)
  have "\<forall>j<length (todo st). fits (result_cost st) tc (todo st ! j) \<longrightarrow>
          \<not> dlt (Fin 0) (efficiency (todo st ! j))"
    using assms by auto
  then show "todo st = [] \<or> snd (snd (greedy_scan (todo st) (result_cost st) tc)) = None"
    by (simp add: greedy_scan_None)
qed

lemma greedy_stops_when_nothing_fits:
  "\<forall>a \<in> set (todo (greedy_loop tc st)).
     \<not> (fits (result_cost (greedy_loop tc st)) tc a \<and> dlt (Fin 0) (efficiency a))"
proof
  fix a assume a: "a \<in> set (todo (greedy_loop tc st))"
  then obtain j where "j < length (todo (greedy_loop tc st))" "todo (greedy_loop tc st) ! j = a"
    by (auto simp: in_set_conv_nth)
  then show "\<not> (fits (result_cost (greedy_loop tc st)) tc a \<and> dlt (Fin 0) (efficiency a))"
    using greedy_loop_final [of tc st] unfolding greedy_final_def by blast
qed

lemma greedy_result_grows: "length (result st) \<le> length (result (greedy_loop tc st))"
  by (rule greedy_loop_rule [where P = "\<lambda>s. length (result st) \<le> length (result s)"])
     (simp_all add: greedy_step_def)

lemma greedy_nonempty:
  assumes "\<exists>a \<in> set av. fits (Fin 0) tc a \<and> dlt (Fin 0) (efficiency a)"
  shows "greedy_max_defense av tc \<noteq> []"
proof -
  let ?ini = "\<lparr>armors = av, todo = av, result = [], result_cost = Fin 0\<rparr>"
  have "\<exists>i. scan_best (todo ?ini) (result_cost ?ini) tc (length (todo ?ini)) i \<and>
             greedy_loop tc ?ini = greedy_loop tc (greedy_step ?ini i)"
    using assms by (intro greedy_round_select) simp
  then obtain i where i: "greedy_loop tc ?ini = greedy_loop tc (greedy_step ?ini i)" by blast
  have "length (result (greedy_step ?ini i)) \<le>
        length (result (greedy_loop tc (greedy_step ?ini i)))"
    by (rule greedy_result_grows)
  moreover have "length (result (greedy_step ?ini i)) = 1"
    by (simp add: greedy_step_def)
  ultimately have "0 < length (result (greedy_loop tc (greedy_step ?ini i)))"
    by linarith
  then have "result (greedy_loop tc (greedy_step ?ini i)) \<noteq> []"
    by simp
  then have "result (greedy_loop tc ?ini) \<noteq> []"
    by (simp add: i)
  then show ?thesis by (simp add: greedy_max_defense_def greedy_run_def)
qed

lemma greedy_singleton:
  assumes "valid_armor a" "dlt (Fin 0) (efficiency a)"
  shows "greedy_max_defense [a] (cost a) = [a]"
proof -
  let ?st = "\<lparr>armors = [a], todo = [a], result = [], result_cost = Fin 0\<rparr>"
  have "cost a \<noteq> NaN" using assms(1) dlt_not_NaN unfolding valid_armor_def by blast
  then have le: "dle (cost a) (cost a)" by (rule dle_refl)
  have c: "dadd (Fin 0) (cost a) = cost a"
    using assms(1) by (simp add: valid_armor_def dadd_zero_left)
  have scan: "greedy_scan [a] (Fin 0) (cost a) = (a, efficiency a, Some 0)"
    using assms(2) c le by (simp add: greedy_scan_def scan_step_def efficiency_def)
  have "greedy_loop (cost a) ?st = greedy_loop (cost a) (greedy_step ?st 0)"
    by (rule greedy_loop_step [where a = a and v = "efficiency a"]) (simp_all add: scan)
  also have "\<dots> = greedy_step ?st 0"
    by (rule greedy_loop_stop) (simp add: greedy_step_def erase_def)
  finally show ?thesis
    by (simp add: greedy_max_defense_def greedy_run_def greedy_step_def)
qed

lemma greedy_nothing_selectable:
  assumes "\<forall>a \<in> set av. \<not> (fits (Fin 0) tc a \<and> dlt (Fin 0) (efficiency a))"
  shows "greedy_max_defense av tc = []"
proof -
  let ?st = "\<lparr>armors = av, todo = av, result = [], result_cost = Fin 0\<rparr>"
  have "greedy_loop tc ?st = ?st" using assms by (intro greedy_round_stop) simp
  then show ?thesis by (simp add: greedy_max_defense_def greedy_run_def)
qed

subsection \<open>The solver on equal items\<close>

lemma efficiency_plate: "efficiency plate = Fin 1"
  by (simp add: efficiency_def plate_def ddiv_def round64_one)

lemma erase_replicate: "i < Suc k \<Longrightarrow> erase (replicate (Suc k) x) i = replicate k x"
proof -
  assume "i < Suc k"
  then have "replicate i x @ replicate (k - i) x = replicate k x"
    by (simp flip: replicate_add)
  moreover have "take i (replicate (Suc k) x) = replicate i x"
    using \<open>i < Suc k\<close> by (simp only: take_replicate min_def) simp
  moreover have "drop (Suc i) (replicate (Suc k) x) = replicate (k - i) x"
    by (simp only: drop_replicate diff_Suc_Suc)
  ultimately show ?thesis by (simp only: erase_def)
qed

lemma plates_inv_step:
  assumes "n < 2 ^ 53" "plates_inv n st" "todo st \<noteq> []"
    "scan_best (todo st) (result_cost st) tc (length (todo st)) i"
  shows "plates_inv n (greedy_step st i)"
proof -
  obtain k where k: "k \<le> n" "todo st = replicate k plate" "result st = replicate (n - k) plate"
    "result_cost st = Fin (real (n - k))"
    using assms(2) by (auto simp: plates_inv_def)
  obtain k' where k': "k = Suc k'" using assms(3) k(2) by (cases k) auto
  have i: "i < Suc k'" using assms(4) k(2) k' by (simp add: scan_best_def)
  have e: "erase (todo st) i = replicate k' plate"
    using erase_replicate [OF i] k(2) k' by simp
  have nk: "n - k' = Suc (n - k)" using k(1) k' by simp
  have ti: "todo st ! i = plate"
    using i k(2) k' by (simp only: nth_replicate)
  have "result st @ [todo st ! i] = replicate (n - k') plate"
    unfolding ti k(3) nk by (simp only: replicate_append_same replicate_Suc)
  moreover have "dadd (result_cost st) (cost (todo st ! i)) = Fin (real (n - k'))"
  proof -
    have "dadd (Fin (real (n - k))) (Fin (real 1)) = Fin (real (n - k + 1))"
      using assms(1) k(1) k' by (intro dadd_nat) simp
    then show ?thesis unfolding ti k(4) nk by (simp add: plate_def)
  qed
  ultimately show ?thesis
    unfolding plates_inv_def using e k(1) k'
    by (intro exI [of _ k']) (simp add: greedy_step_def)
qed

text \<open>Of \<open>n\<close> plates of cost 1 and budget \<open>n\<close> the greedy solver takes all.\<close>

lemma greedy_plates:
  assumes n: "n < 2 ^ 53"
  shows "greedy_max_defense (replicate n plate) (Fin (real n)) = replicate n plate"
proof -
  let ?ini = "\<lparr>armors = replicate n plate, todo = replicate n plate, result = [],
               result_cost = Fin 0\<rparr>"
  let ?st = "greedy_loop (Fin (real n)) ?ini"
  have "plates_inv n ?ini" by (auto simp: plates_inv_def)
  then have "plates_inv n ?st"
    by (rule greedy_loop_rule [where P = "plates_inv n"]) (rule plates_inv_step [OF n])
  then obtain k where k: "k \<le> n" "todo ?st = replicate k plate"
    "result ?st = replicate (n - k) plate" "result_cost ?st = Fin (real (n - k))"
    unfolding plates_inv_def by blast
  have "k = 0"
  proof (rule ccontr)
    assume "k \<noteq> 0"
    then have "0 < length (todo ?st)" and "todo ?st ! 0 = plate" using k(2) by simp_all
    moreover have "fits (result_cost ?st) (Fin (real n)) plate"
    proof -
      have "dadd (Fin (real (n - k))) (Fin (real 1)) = Fin (real (n - k + 1))"
        using n k(1) \<open>k \<noteq> 0\<close> by (intro dadd_nat) simp
      then show ?thesis using k(1,4) \<open>k \<noteq> 0\<close> by (simp add: fits_def plate_def)
    qed
    moreover have "dlt (Fin 0) (efficiency plate)" by (simp add: efficiency_plate)
    ultimately show False
      using greedy_loop_final [of "Fin (real n)" ?ini] unfolding greedy_final_def
      by metis
  qed
  then show ?thesis using k(3) by (simp add: greedy_max_defense_def greedy_run_def)
qed

section \<open>Properties of exhaustive_max_defense\<close>

subsection \<open>The loop guard\<close>

text \<open>
  Up to \<open>2 ^ 53\<close> the conversion is exact, so for at most 53 items the guard is the
  comparison of integers. With 54 items the last mask, \<open>2 ^ 54 - 1\<close>, converts to
  \<open>2 ^ 54\<close>, and the guard fails one mask early.
\<close>
lemma u64_to_double_exact: "x < 2 ^ 53 \<Longrightarrow> u64_to_double x = x"
proof -
  assume h: "x < 2 ^ 53"
  have two: "(1::nat) < 2" by simp
  have "bit_length x - 53 = 0"
  proof (cases "x = 0")
    case True
    then show ?thesis by (simp add: bit_length.simps [of 0])
  next
    case False
    then have "(2::nat) ^ (bit_length x - 1) < 2 ^ 53"
      using bit_length_lower [of x] h by linarith
    then have "bit_length x - 1 < 53" by (rule power_less_imp_less_exp [OF two])
    then show ?thesis by simp
  qed
  then show ?thesis by (simp add: u64_to_double_def)
qed

lemma guard_exact: "n \<le> 53 \<Longrightarrow> u64_to_double bits < 2 ^ n \<longleftrightarrow> bits < 2 ^ n"
proof
  assume "u64_to_double bits < 2 ^ n" then show "bits < 2 ^ n" by (rule guard_less)
next
  assume n: "n \<le> 53" and b: "bits < 2 ^ n"
  have "(2::nat) ^ n \<le> 2 ^ 53" using n by (intro power_increasing) auto
  with b have "bits < 2 ^ 53" by linarith
  then show "u64_to_double bits < 2 ^ n" using b by (simp add: u64_to_double_exact)
qed

lemma u64_to_double_54: "u64_to_double (2 ^ 54 - 1) = 2 ^ 54"
proof -
  have "bit_length (2 ^ 54 - 1) = Suc 53"
    by (rule bit_length_eqI) simp_all
  then show ?thesis by (simp add: u64_to_double_def)
qed

subsection \<open>Candidates and masks\<close>

lemma mask_bit_iff: "mask_bit bits j \<longleftrightarrow> bit bits j"
  by (simp add: mask_bit_def bit_iff_odd odd_iff_mod_2_eq_one)

lemma mask_bit_eq: "mask_bit bits = bit bits"
  by (rule ext) (simp add: mask_bit_iff)

lemma build_fold_aux:
  "fold (\<lambda>j candidates. if P j then candidates @ [f j] else candidates) js acc =
   acc @ map f (filter P js)"
  by (induction js arbitrary: acc) auto

lemma build_candidates_eq:
  "build_candidates av n bits = map ((!) av) (filter (mask_bit bits) [0..<n])"
  unfolding build_candidates_def mask_bit_def by (rule build_fold_aux [where acc = "[]", simplified])

lemma nths_eq_map_filter: "nths xs S = map ((!) xs) (filter (\<lambda>j. j \<in> S) [0..<length xs])"
proof (induction xs arbitrary: S rule: rev_induct)
  case Nil
  then show ?case by simp
next
  case (snoc x xs)
  have "map ((!) (xs @ [x])) (filter (\<lambda>j. j \<in> S) [0..<length xs]) =
        map ((!) xs) (filter (\<lambda>j. j \<in> S) [0..<length xs])"
    by (rule map_cong) (auto simp: nth_append)
  then show ?case
    by (simp add: nths_append snoc.IH)
qed

lemma build_candidates_nths:
  "build_candidates av (length av) bits = nths av {j. bit bits j}"
  by (simp add: build_candidates_eq nths_eq_map_filter mask_bit_eq)

lemma mask_of_less: "mask_of n S < 2 ^ n"
  using horner_sum_of_bool_2_less [of "map (\<lambda>j. j \<in> S) [0..<n]"] by (simp add: mask_of_def)

lemma bit_mask_of: "bit (mask_of n S) j \<longleftrightarrow> j < n \<and> j \<in> S"
  by (auto simp: mask_of_def bit_horner_sum_bit_iff)

lemma nths_restrict: "nths xs (S \<inter> {..<length xs}) = nths xs S"
  by (simp add: nths_def) (rule arg_cong [where f = "map fst"], rule filter_cong, auto dest: set_zip_rightD)

lemma build_candidates_mask_of:
  "build_candidates av (length av) (mask_of (length av) S) = nths av S"
proof -
  have "{j. bit (mask_of (length av) S) j} = S \<inter> {..<length av}"
    by (auto simp: bit_mask_of)
  then show ?thesis by (simp add: build_candidates_nths nths_restrict)
qed

lemma build_candidates_replicate:
  "build_candidates (replicate n x) n m = replicate (popcount n m) x"
proof -
  have "map ((!) (replicate n x)) (filter (mask_bit m) [0..<n]) =
        map (\<lambda>_. x) (filter (mask_bit m) [0..<n])"
    by (rule map_cong) auto
  then show ?thesis
    by (simp add: build_candidates_eq popcount_def map_replicate_const)
qed

lemma popcount_le: "popcount n m \<le> n"
  using length_filter_le [of "mask_bit m" "[0..<n]"] by (simp add: popcount_def)

lemma popcount_full: "popcount n m = n \<Longrightarrow> 2 ^ n - 1 \<le> m"
proof -
  assume "popcount n m = n"
  then have "length (filter (mask_bit m) [0..<n]) = length [0..<n]"
    by (simp add: popcount_def)
  then have "\<forall>j \<in> set [0..<n]. mask_bit m j"
    by (metis length_filter_less order_less_irrefl)
  then have "\<forall>j<n. bit m j" by (simp add: mask_bit_iff)
  then have "take_bit n m = mask n"
    by (auto simp: bit_eq_iff bit_take_bit_iff bit_mask_iff)
  then have "mask n \<le> m"
    by (metis take_bit_nat_less_eq_self)
  then show ?thesis by (simp add: mask_eq_exp_minus_1)
qed

lemma popcount_mask: "k \<le> n \<Longrightarrow> popcount n (2 ^ k - 1) = k"
proof -
  assume kn: "k \<le> n"
  have eq: "(2::nat) ^ k - 1 = mask k" by (simp add: mask_eq_exp_minus_1)
  have "mask_bit (2 ^ k - 1) = (\<lambda>j. j < k)"
    unfolding eq by (rule ext) (simp add: mask_bit_iff bit_mask_iff)
  moreover have "filter (\<lambda>j. j < k) [0..<n] = [0..<k]"
    using kn by (induction n) (auto simp: le_Suc_eq)
  ultimately show ?thesis by (simp add: popcount_def)
qed

subsection \<open>The invariant of the enumeration\<close>

lemma consider_candidates_armors [simp]:
  "armors (consider_candidates total_cost c st) = armors st"
  by (simp add: consider_candidates_def split: prod.splits)

lemma consider_candidates_eq:
  "consider_candidates total_cost c st =
     (if feasible total_cost c \<and> (\<not> flag st \<or> dlt (best_defense st) (armor_defense c))
      then st\<lparr>best_defense := armor_defense c, bestVector := c, flag := True\<rparr>
      else st)"
  by (simp add: consider_candidates_def sum_armor_vector_pair feasible_def)

lemma exhaustive_inv_step:
  assumes "exhaustive_inv av total_cost n b st"
  shows "exhaustive_inv av total_cost n (Suc b)
           (consider_candidates total_cost (build_candidates av n b) st)"
proof -
  let ?c = "build_candidates av n b"
  let ?d = "\<lambda>k. armor_defense (build_candidates av n k)"
  let ?f = "\<lambda>k. feasible total_cost (build_candidates av n k)"
  show ?thesis
  proof (cases "?f b")
    case False
    then have "consider_candidates total_cost ?c st = st"
      by (simp add: consider_candidates_eq)
    moreover have "exhaustive_inv av total_cost n (Suc b) st"
      using assms False
      by (auto simp: exhaustive_inv_def best_so_far_def less_Suc_eq)
    ultimately show ?thesis by simp
  next
    case feas: True
    show ?thesis
    proof (cases "flag st")
      case False
      then have "consider_candidates total_cost ?c st =
                 st\<lparr>best_defense := armor_defense ?c, bestVector := ?c, flag := True\<rparr>"
        using feas by (simp add: consider_candidates_eq)
      moreover have "best_so_far av total_cost n (Suc b) b"
        using assms False feas by (auto simp: exhaustive_inv_def best_so_far_def less_Suc_eq)
      ultimately show ?thesis using assms by (auto simp: exhaustive_inv_def)
    next
      case True
      then obtain m where m: "best_so_far av total_cost n b m"
        "bestVector st = build_candidates av n m"
        "best_defense st = ?d m"
        using assms by (auto simp: exhaustive_inv_def)
      have low: "\<not> dlt (?d m) (?d k)" if "k < b" "?f k" for k
        using m(1) that by (simp add: best_so_far_def)
      show ?thesis
      proof (cases "dlt (best_defense st) (armor_defense ?c)")
        case better: True
        then have "consider_candidates total_cost ?c st =
                 st\<lparr>best_defense := armor_defense ?c, bestVector := ?c, flag := True\<rparr>"
          using feas by (simp add: consider_candidates_eq)
        moreover have "best_so_far av total_cost n (Suc b) b"
        proof -
          have mb: "dlt (?d m) (?d b)" using better m(3) by simp
          have a: "\<not> dlt (?d b) (?d k)" if "k < Suc b" "?f k" for k
          proof (cases "k = b")
            case True
            then show ?thesis by simp
          next
            case False
            then have "\<not> dlt (?d m) (?d k)" using low that by simp
            then show ?thesis using mb dlt_trans by blast
          qed
          have c: "\<not> dle (?d b) (?d k)" if "k < b" "?f k" for k
          proof -
            have "\<not> dlt (?d m) (?d k)" using low that by simp
            then show ?thesis using mb dlt_dle_trans by blast
          qed
          show ?thesis unfolding best_so_far_def using feas a c by simp
        qed
        ultimately show ?thesis using assms by (auto simp: exhaustive_inv_def)
      next
        case False
        then have "consider_candidates total_cost ?c st = st"
          using True by (simp add: consider_candidates_eq)
        moreover have "best_so_far av total_cost n (Suc b) m"
          using m False by (auto simp: best_so_far_def less_Suc_eq)
        ultimately show ?thesis using assms True m by (auto simp: exhaustive_inv_def)
      qed
    qed
  qed
qed

lemma exhaustive_loop_inv:
  "exhaustive_inv av total_cost n b st \<Longrightarrow>
   exhaustive_inv av total_cost n (exhaustive_loop_end n b) (exhaustive_loop total_cost n b st)"
proof (induction total_cost n b st rule: exhaustive_loop.induct)
  case (1 total_cost n bits st)
  show ?case
  proof (cases "u64_to_double bits < 2 ^ n")
    case True
    have av: "armors st = av" using 1(2) by (simp add: exhaustive_inv_def)
    have "exhaustive_inv av total_cost n (Suc bits)
            (consider_candidates total_cost (build_candidates (armors st) n bits) st)"
      using exhaustive_inv_step [OF 1(2)] av by simp
    then have "exhaustive_inv av total_cost n (exhaustive_loop_end n (bits + 1))
       (exhaustive_loop total_cost n (bits + 1)
          (consider_candidates total_cost (build_candidates (armors st) n bits) st))"
      using 1(1) [OF True] by simp
    then show ?thesis
      using True by (simp add: exhaustive_loop.simps [of total_cost n bits]
          exhaustive_loop_end.simps [of n bits])
  next
    case False
    then show ?thesis
      using 1(2) by (simp add: exhaustive_loop.simps [of total_cost n bits]
          exhaustive_loop_end.simps [of n bits])
  qed
qed

lemma exhaustive_inv_init:
  "exhaustive_inv av total_cost n 0
     \<lparr>armors = av, best_defense = Fin 0, bestVector = [], flag = False\<rparr>"
  by (simp add: exhaustive_inv_def)

subsection \<open>The masks that the loop examines\<close>

lemma exhaustive_loop_end_exact:
  "n \<le> 53 \<Longrightarrow> b \<le> 2 ^ n \<Longrightarrow> exhaustive_loop_end n b = 2 ^ n"
proof (induction n b rule: exhaustive_loop_end.induct)
  case (1 n bits)
  show ?case
  proof (cases "bits < 2 ^ n")
    case True
    then have "u64_to_double bits < 2 ^ n" using 1(2) by (simp add: guard_exact)
    then show ?thesis using 1 True by (simp add: exhaustive_loop_end.simps [of n bits])
  next
    case False
    then have "\<not> u64_to_double bits < 2 ^ n" using 1(2) by (simp add: guard_exact)
    then have "exhaustive_loop_end n bits = bits"
      by (subst exhaustive_loop_end.simps) simp
    then show ?thesis using 1(3) False by simp
  qed
qed

lemma exhaustive_loop_end_le:
  "\<not> u64_to_double k < 2 ^ n \<Longrightarrow> b \<le> k \<Longrightarrow> exhaustive_loop_end n b \<le> k"
proof (induction n b rule: exhaustive_loop_end.induct)
  case (1 n bits)
  show ?case
  proof (cases "u64_to_double bits < 2 ^ n")
    case True
    then have "bits \<noteq> k" using 1(2) by auto
    then have "bits + 1 \<le> k" using 1(3) by simp
    then show ?thesis using 1 True by (simp add: exhaustive_loop_end.simps [of n bits])
  next
    case False
    then show ?thesis using 1 by (simp add: exhaustive_loop_end.simps [of n bits])
  qed
qed

lemma exhaustive_loop_end_start: "b \<le> exhaustive_loop_end n b"
proof (induction n b rule: exhaustive_loop_end.induct)
  case (1 n bits)
  show ?case
  proof (cases "u64_to_double bits < 2 ^ n")
    case True
    then have "exhaustive_loop_end n bits = exhaustive_loop_end n (bits + 1)"
      by (subst exhaustive_loop_end.simps) simp
    then show ?thesis using 1 [OF True] by simp
  next
    case False
    then have "exhaustive_loop_end n bits = bits"
      by (subst exhaustive_loop_end.simps) simp
    then show ?thesis by simp
  qed
qed

lemma exhaustive_loop_end_ge:
  "(\<And>k. k < m \<Longrightarrow> u64_to_double k < 2 ^ n) \<Longrightarrow> b \<le> m \<Longrightarrow> m \<le> exhaustive_loop_end n b"
proof (induction n b rule: exhaustive_loop_end.induct)
  case (1 n bits)
  show ?case
  proof (cases "bits = m")
    case True
    then show ?thesis using exhaustive_loop_end_start [of bits n] by simp
  next
    case False
    then have lt: "bits < m" using 1(3) by simp
    then have g: "u64_to_double bits < 2 ^ n" by (rule 1(2))
    then have "exhaustive_loop_end n bits = exhaustive_loop_end n (bits + 1)"
      by (subst exhaustive_loop_end.simps) simp
    moreover have "m \<le> exhaustive_loop_end n (bits + 1)"
      using 1(1) [OF g] 1(2) lt by simp
    ultimately show ?thesis by simp
  qed
qed

lemma loop_end_54: "2 ^ 53 \<le> exhaustive_loop_end 54 0 \<and> exhaustive_loop_end 54 0 \<le> 2 ^ 54 - 1"
proof
  show "2 ^ 53 \<le> exhaustive_loop_end 54 0"
  proof (rule exhaustive_loop_end_ge)
    fix k :: nat assume "k < 2 ^ 53"
    then show "u64_to_double k < 2 ^ 54" by (simp add: u64_to_double_exact)
  qed simp
  show "exhaustive_loop_end 54 0 \<le> 2 ^ 54 - 1"
    using u64_to_double_54 by (intro exhaustive_loop_end_le) simp_all
qed

lemma exhaustive_loop_unfold_true:
  "u64_to_double bits < 2 ^ n \<Longrightarrow>
   exhaustive_loop tc n bits st =
   exhaustive_loop tc n (Suc bits) (consider_candidates tc (build_candidates (armors st) n bits) st)"
  by (subst exhaustive_loop.simps) simp

lemma exhaustive_loop_unfold_false:
  "\<not> u64_to_double bits < 2 ^ n \<Longrightarrow> exhaustive_loop tc n bits st = st"
  by (subst exhaustive_loop.simps) simp

subsection \<open>The assertion and the result\<close>

lemma size_to_int_small: "sz < 2 ^ 31 \<Longrightarrow> size_to_int sz = int sz"
proof -
  assume "sz < 2 ^ 31"
  then have "int sz < 2 ^ 31" by (metis of_nat_less_iff of_nat_numeral of_nat_power)
  then have "signed_take_bit 31 (int sz) = int sz"
    by (intro signed_take_bit_int_eq_self) auto
  then show ?thesis by (simp add: size_to_int_def signed_of_nat)
qed

lemma exhaustive_run_small:
  assumes "length av < 64"
  shows "exhaustive_run av tc = Inr (exhaustive_loop tc (length av) 0 (exhaustive_init av))"
proof -
  have "length av < 2 ^ 31" using assms by simp
  then have "size_to_int (length av) = int (length av)" by (rule size_to_int_small)
  then show ?thesis using assms by (simp add: exhaustive_run_def exhaustive_init_def)
qed

lemma exhaustive_run_inv:
  assumes "exhaustive_run av tc = Inr st"
  shows "\<exists>n b. exhaustive_inv av tc n b st"
proof -
  let ?ini = "\<lparr>armors = av, best_defense = Fin 0, bestVector = [], flag = False\<rparr>"
  let ?n = "nat (size_to_int (length av))"
  have "st = ?ini \<or> st = exhaustive_loop tc ?n 0 ?ini"
    using assms by (auto simp: exhaustive_run_def Let_def split: if_splits)
  then show ?thesis
  proof
    assume "st = ?ini"
    then have "exhaustive_inv av tc 0 0 st" by (simp add: exhaustive_inv_init)
    then show ?thesis by blast
  next
    assume "st = exhaustive_loop tc ?n 0 ?ini"
    then have "exhaustive_inv av tc ?n (exhaustive_loop_end ?n 0) st"
      using exhaustive_loop_inv [OF exhaustive_inv_init] by simp
    then show ?thesis by blast
  qed
qed

lemma exhaustive_run_small_inv:
  assumes "length av < 64" and "exhaustive_run av tc = Inr st"
  shows "exhaustive_inv av tc (length av) (exhaustive_loop_end (length av) 0) st"
proof -
  have "st = exhaustive_loop tc (length av) 0 (exhaustive_init av)"
    using exhaustive_run_small [OF assms(1), of tc] assms(2) by simp
  then show ?thesis
    using exhaustive_loop_inv [OF exhaustive_inv_init, of av tc "length av"]
    by (simp add: exhaustive_init_def)
qed

lemma exhaustive_returns:
  "length av < 64 \<Longrightarrow> \<exists>r. exhaustive_max_defense av tc = Inr r"
  by (simp add: exhaustive_max_defense_def exhaustive_run_small)

lemma exhaustive_asserts:
  assumes "64 \<le> length av" "length av < 2 ^ 31"
  shows "exhaustive_max_defense av tc = Inl AssertionFailure"
proof -
  have "size_to_int (length av) = int (length av)"
    using assms(2) by (rule size_to_int_small)
  then show ?thesis
    using assms(1) by (simp add: exhaustive_max_defense_def exhaustive_run_def)
qed

lemma exhaustive_size_wraps_to_zero:
  assumes "size_to_int (length av) = 0"
  shows "exhaustive_max_defense av tc = Inr []"
proof -
  let ?s0 = "\<lparr>armors = av, best_defense = Fin 0, bestVector = [], flag = False\<rparr>"
  have g0: "u64_to_double 0 < 2 ^ 0" and g1: "\<not> u64_to_double (Suc 0) < 2 ^ 0"
    by (simp_all add: u64_to_double_exact)
  have c0: "build_candidates av 0 0 = []" by (simp add: build_candidates_def)
  have "exhaustive_loop tc 0 0 ?s0 =
        exhaustive_loop tc 0 (Suc 0) (consider_candidates tc [] ?s0)"
    by (simp add: exhaustive_loop_unfold_true [OF g0] c0)
  also have "\<dots> = consider_candidates tc [] ?s0"
    by (rule exhaustive_loop_unfold_false [OF g1])
  finally have "bestVector (exhaustive_loop tc 0 0 ?s0) = []"
    by (simp add: consider_candidates_eq)
  then show ?thesis
    using assms by (simp add: exhaustive_max_defense_def exhaustive_run_def)
qed

text \<open>
  The cost of a returned solution, summed as \<open>sum_armor_vector\<close> sums it, is within a
  budget that is at least \<open>0.0\<close>.
\<close>

lemma exhaustive_feasible:
  assumes "dle (Fin 0) tc" "exhaustive_max_defense av tc = Inr r"
  shows "dle (armor_cost r) tc"
proof -
  obtain st where st: "exhaustive_run av tc = Inr st" and r: "r = bestVector st"
    using assms(2) by (auto simp: exhaustive_max_defense_def split: sum.splits)
  obtain n b where inv: "exhaustive_inv av tc n b st"
    using exhaustive_run_inv [OF st] by blast
  show ?thesis
  proof (cases "flag st")
    case True
    then show ?thesis using inv r by (auto simp: exhaustive_inv_def best_so_far_def feasible_def)
  next
    case False
    then have "r = []" using inv r by (simp add: exhaustive_inv_def)
    then show ?thesis using assms(1) by simp
  qed
qed

lemma exhaustive_armors: "exhaustive_run av tc = Inr st \<Longrightarrow> armors st = av"
  using exhaustive_run_inv [of av tc st] by (auto simp: exhaustive_inv_def)

lemma exhaustive_index_list:
  assumes "length av < 64"
  shows "\<exists>is. sorted_wrt (<) is \<and> set is \<subseteq> {..<length av} \<and>
              exhaustive_max_defense av tc = Inr (map ((!) av) is)"
proof -
  let ?n = "length av"
  define st where "st = exhaustive_loop tc ?n 0 (exhaustive_init av)"
  have run: "exhaustive_run av tc = Inr st"
    using exhaustive_run_small [OF assms] by (simp add: st_def)
  then have inv: "exhaustive_inv av tc ?n (exhaustive_loop_end ?n 0) st"
    using assms by (intro exhaustive_run_small_inv)
  have res: "exhaustive_max_defense av tc = Inr (bestVector st)"
    using run by (simp add: exhaustive_max_defense_def)
  show ?thesis
  proof (cases "flag st")
    case True
    then obtain m where "bestVector st = build_candidates av ?n m"
      using inv by (auto simp: exhaustive_inv_def)
    then have "bestVector st = map ((!) av) (filter (mask_bit m) [0..<?n])"
      by (simp add: build_candidates_eq)
    moreover have "sorted_wrt (<) (filter (mask_bit m) [0..<?n])"
      by (rule sorted_wrt_filter) (simp add: sorted_wrt_upt)
    moreover have "set (filter (mask_bit m) [0..<?n]) \<subseteq> {..<?n}" by auto
    ultimately show ?thesis using res by metis
  next
    case False
    then have "bestVector st = map ((!) av) []" using inv by (simp add: exhaustive_inv_def)
    then show ?thesis using res by (intro exI [of _ "[]"]) simp
  qed
qed

text \<open>
  For at most 53 items the enumeration is complete. In terms of the costs and defenses
  that \<open>sum_armor_vector\<close> computes for the candidates, the result is then within the
  budget, no subset within the budget has a greater defense, and the result is the
  candidate of the least mask with this property.
\<close>

lemma exhaustive_optimal_upto_53:
  assumes len: "length av \<le> 53" and run: "exhaustive_max_defense av tc = Inr r"
    and feas: "feasible tc (nths av S)"
  shows "feasible tc r \<and> \<not> dlt (armor_defense r) (armor_defense (nths av S))"
proof -
  let ?n = "length av"
  obtain st where st: "exhaustive_run av tc = Inr st" and r: "r = bestVector st"
    using run by (auto simp: exhaustive_max_defense_def split: sum.splits)
  have "length av < 64" using len by simp
  then have inv: "exhaustive_inv av tc ?n (exhaustive_loop_end ?n 0) st"
    using st by (rule exhaustive_run_small_inv)
  have fin: "exhaustive_loop_end ?n 0 = 2 ^ ?n"
    using len by (simp add: exhaustive_loop_end_exact)
  let ?k = "mask_of ?n S"
  have k: "?k < 2 ^ ?n" by (rule mask_of_less)
  have fk: "feasible tc (build_candidates av ?n ?k)"
    using feas by (simp add: build_candidates_mask_of)
  show ?thesis
  proof (cases "flag st")
    case True
    then obtain m where m: "best_so_far av tc ?n (2 ^ ?n) m"
        "bestVector st = build_candidates av ?n m"
      using inv fin by (auto simp: exhaustive_inv_def)
    then have "\<not> dlt (armor_defense (build_candidates av ?n m))
                    (armor_defense (build_candidates av ?n ?k))"
      and "feasible tc (build_candidates av ?n m)"
      using k fk by (auto simp: best_so_far_def)
    then show ?thesis using m r by (simp add: build_candidates_mask_of)
  next
    case False
    then have "\<not> feasible tc (build_candidates av ?n ?k)"
      using inv fin k by (auto simp: exhaustive_inv_def)
    with fk show ?thesis by simp
  qed
qed

lemma exhaustive_first_best_upto_53:
  assumes len: "length av \<le> 53" and run: "exhaustive_max_defense av tc = Inr r"
  shows "if \<exists>k. feasible tc (build_candidates av (length av) k)
         then \<exists>m. best_so_far av tc (length av) (2 ^ length av) m \<and>
                  r = build_candidates av (length av) m
         else r = []"
proof -
  let ?n = "length av"
  obtain st where st: "exhaustive_run av tc = Inr st" and r: "r = bestVector st"
    using run by (auto simp: exhaustive_max_defense_def split: sum.splits)
  have "length av < 64" using len by simp
  then have "exhaustive_inv av tc ?n (exhaustive_loop_end ?n 0) st"
    using st by (rule exhaustive_run_small_inv)
  then have inv: "exhaustive_inv av tc ?n (2 ^ ?n) st"
    using len by (simp add: exhaustive_loop_end_exact)
  have all: "build_candidates av ?n k = build_candidates av ?n (mask_of ?n {j. bit k j})" for k
  proof -
    have "build_candidates av ?n (mask_of ?n {j. bit k j}) = nths av {j. bit k j}"
      by (rule build_candidates_mask_of)
    also have "\<dots> = build_candidates av ?n k"
      by (rule build_candidates_nths [symmetric])
    finally show ?thesis by (rule sym)
  qed
  show ?thesis
  proof (cases "flag st")
    case True
    then obtain m where "best_so_far av tc ?n (2 ^ ?n) m" "bestVector st = build_candidates av ?n m"
      using inv by (auto simp: exhaustive_inv_def)
    moreover from this have "feasible tc (build_candidates av ?n m)"
      by (simp add: best_so_far_def)
    ultimately show ?thesis using r by auto
  next
    case False
    then have none: "\<forall>k<2 ^ ?n. \<not> feasible tc (build_candidates av ?n k)" and e: "r = []"
      using inv r by (simp_all add: exhaustive_inv_def)
    have "\<not> feasible tc (build_candidates av ?n k)" for k
      using none all [of k] mask_of_less [of ?n "{j. bit k j}"] by metis
    then show ?thesis using e by simp
  qed
qed

subsection \<open>The solver on one item and on equal items\<close>

lemma exhaustive_single_run:
  "exhaustive_max_defense [a] tc =
     Inr (bestVector (consider_candidates tc [a] (consider_candidates tc [] (exhaustive_init [a]))))"
proof -
  let ?s0 = "exhaustive_init [a]"
  let ?s1 = "consider_candidates tc [] ?s0"
  let ?s2 = "consider_candidates tc [a] ?s1"
  have c0: "build_candidates [a] (Suc 0) 0 = []"
    and c1: "build_candidates [a] (Suc 0) (Suc 0) = [a]"
    by (simp_all add: build_candidates_def)
  have g0: "u64_to_double 0 < 2 ^ Suc 0" and g1: "u64_to_double (Suc 0) < 2 ^ Suc 0"
    and g2: "\<not> u64_to_double (Suc (Suc 0)) < 2 ^ Suc 0"
    by (simp_all add: u64_to_double_exact)
  have a0: "armors ?s0 = [a]" and a1: "armors ?s1 = [a]"
    by (simp_all add: exhaustive_init_def)
  have "exhaustive_loop tc (Suc 0) 0 ?s0 = exhaustive_loop tc (Suc 0) (Suc 0) ?s1"
    by (simp only: exhaustive_loop_unfold_true [OF g0] a0 c0)
  also have "\<dots> = exhaustive_loop tc (Suc 0) (Suc (Suc 0)) ?s2"
    by (simp only: exhaustive_loop_unfold_true [OF g1] a1 c1)
  also have "\<dots> = ?s2" by (rule exhaustive_loop_unfold_false [OF g2])
  finally show ?thesis
    using exhaustive_run_small [of "[a]" tc] by (simp add: exhaustive_max_defense_def)
qed

text \<open>
  One valid item and its cost as the budget: the item is returned when its defense is
  above \<open>0.0\<close>; otherwise the empty subset, which comes first, is kept.
\<close>

lemma exhaustive_single:
  assumes "valid_armor a"
  shows "exhaustive_max_defense [a] (cost a) = Inr (if dlt (Fin 0) (defense a) then [a] else [])"
proof -
  have pos: "dlt (Fin 0) (cost a)" and c: "armor_cost [a] = cost a"
    and d: "armor_defense [a] = defense a"
    using assms by (simp_all add: valid_armor_def armor_cost_single armor_defense_single
        dadd_zero_left)
  have f0: "feasible (cost a) []" using dlt_imp_dle [OF pos] by (simp add: feasible_def)
  have "cost a \<noteq> NaN" using dlt_not_NaN [OF pos] by simp
  then have f1: "feasible (cost a) [a]" by (simp add: feasible_def c dle_refl)
  show ?thesis
    by (simp add: exhaustive_single_run consider_candidates_eq exhaustive_init_def f0 f1 d)
qed

text \<open>
  With 54 plates and budget 54 every candidate is within the budget, and the loop stops
  before the mask of all plates: the result has 53 plates.
\<close>

lemma exhaustive_54_plates:
  "exhaustive_max_defense (replicate 54 plate) (Fin 54) = Inr (replicate 53 plate)"
proof -
  let ?av = "replicate 54 plate"
  let ?K = "exhaustive_loop_end 54 0"
  define st where "st = exhaustive_loop (Fin 54) 54 0 (exhaustive_init ?av)"
  have run: "exhaustive_run ?av (Fin 54) = Inr st"
    using exhaustive_run_small [of ?av "Fin 54"] by (simp add: st_def)
  then have inv: "exhaustive_inv ?av (Fin 54) 54 ?K st"
    using exhaustive_run_small_inv [of ?av "Fin 54" st] by simp
  have small: "popcount 54 k < 2 ^ 53" for k
    using popcount_le [of 54 k] by simp
  have feas: "feasible (Fin 54) (build_candidates ?av 54 k)" for k
    using popcount_le [of 54 k]
    by (simp add: feasible_def build_candidates_replicate armor_cost_replicate_plate [OF small])
  have K: "2 ^ 53 \<le> ?K" "?K \<le> 2 ^ 54 - 1" using loop_end_54 by simp_all
  have "flag st"
  proof (rule ccontr)
    assume "\<not> flag st"
    then have "\<forall>k<?K. \<not> feasible (Fin 54) (build_candidates ?av 54 k)"
      using inv by (simp add: exhaustive_inv_def)
    moreover have "0 < ?K" using K(1) by (metis less_le_trans zero_less_numeral zero_less_power)
    ultimately show False using feas by blast
  qed
  then obtain m where m: "best_so_far ?av (Fin 54) 54 ?K m"
    "bestVector st = build_candidates ?av 54 m"
    using inv by (auto simp: exhaustive_inv_def)
  have "m < 2 ^ 54 - 1" using m(1) K(2) by (simp add: best_so_far_def)
  then have "popcount 54 m \<noteq> 54" using popcount_full [of 54 m] by auto
  then have up: "popcount 54 m \<le> 53" using popcount_le [of 54 m] by simp
  have "(2::nat) ^ 53 - 1 < ?K" using K(1) by simp
  then have "\<not> dlt (armor_defense (build_candidates ?av 54 m))
                  (armor_defense (build_candidates ?av 54 (2 ^ 53 - 1)))"
    using m(1) feas unfolding best_so_far_def by blast
  moreover have "armor_defense (build_candidates ?av 54 m) = Fin (real (popcount 54 m))"
    by (simp only: build_candidates_replicate armor_defense_replicate_plate [OF small])
  moreover have "armor_defense (build_candidates ?av 54 (2 ^ 53 - 1)) = Fin (real 53)"
    using popcount_mask [of 53 54] small [of "2 ^ 53 - 1"]
    by (simp only: build_candidates_replicate armor_defense_replicate_plate)
  ultimately have "53 \<le> popcount 54 m" by simp
  with up have "popcount 54 m = 53" by simp
  then have "bestVector st = replicate 53 plate"
    using m(2) by (simp add: build_candidates_replicate)
  then show ?thesis using run by (simp add: exhaustive_max_defense_def)
qed

section \<open>The example items\<close>

lemma valid_examples:
  "valid_armor helmet" "valid_armor shield" "valid_armor cloak" "valid_armor plate"
  "valid_armor sword" "valid_armor gauntlet" "valid_armor boots"
  by (simp_all add: valid_armor_def binary64_def round64_numeral round64_one
      helmet_def shield_def cloak_def plate_def sword_def gauntlet_def boots_def)

lemma efficiency_examples:
  "efficiency cloak = Fin 0" "efficiency sword = Fin 5" "efficiency gauntlet = Fin 6"
  "efficiency boots = Fin 6"
  by (simp_all add: efficiency_def ddiv_def round64_numeral
      cloak_def sword_def gauntlet_def boots_def)

lemma fits_examples:
  "fits (Fin 0) (Fin 50) sword" "fits (Fin 0) (Fin 50) gauntlet" "fits (Fin 0) (Fin 50) boots"
  "fits (Fin 0) (Fin 1) cloak" "\<not> fits (Fin 0) (Fin (- 1)) helmet"
  by (simp_all add: fits_def dadd_def round64_numeral round64_one
      cloak_def sword_def gauntlet_def boots_def helmet_def)

subsection \<open>Rounding in the solvers\<close>

lemma valid_anvil: "valid_armor anvil"
  unfolding valid_armor_def anvil_def binary64_def
  by (simp only: ArmorItem.simps double.case round64_2p53) simp

lemma valid_dust: "valid_armor dust"
  unfolding valid_armor_def dust_def binary64_def
  by (simp only: ArmorItem.simps double.case round64_least round64_two) simp

lemma anvil_plate:
  "dadd (Fin 0) (cost anvil) = cost anvil" "dadd (cost anvil) (cost plate) = cost anvil"
  "dle (cost anvil) (cost anvil)" "dle (dadd (Fin 0) (cost plate)) (cost anvil)"
  "efficiency anvil = Fin 1"
proof -
  show "dadd (Fin 0) (cost anvil) = cost anvil"
    using valid_anvil by (simp add: valid_armor_def dadd_zero_left)
  show "dadd (cost anvil) (cost plate) = cost anvil"
    unfolding anvil_def plate_def by (simp only: ArmorItem.simps dadd_rounds)
  show "dle (cost anvil) (cost anvil)" by (simp add: anvil_def)
  show "dle (dadd (Fin 0) (cost plate)) (cost anvil)"
    by (simp add: anvil_def plate_def dadd_def round64_one)
  show "efficiency anvil = Fin 1"
    by (simp add: efficiency_def anvil_def ddiv_def round64_one)
qed

text \<open>
  The sum that the program computes for an anvil of cost \<open>2 ^ 53\<close> and a plate of cost
  1 is \<open>2 ^ 53\<close>, so with the budget \<open>2 ^ 53\<close> the greedy solver takes both.
\<close>

lemma armor_cost_anvil_plate: "armor_cost [anvil, plate] = Fin (2 ^ 53)"
proof -
  have "armor_cost ([anvil] @ [plate]) = dadd (dadd (Fin 0) (cost anvil)) (cost plate)"
    by (simp only: armor_cost_snoc armor_cost_single)
  then show ?thesis by (simp add: anvil_plate) (simp add: anvil_def)
qed

lemma greedy_anvil_plate: "greedy_max_defense [anvil, plate] (cost anvil) = [anvil, plate]"
proof -
  let ?tc = "cost anvil"
  let ?s0 = "\<lparr>armors = [anvil, plate], todo = [anvil, plate], result = [], result_cost = Fin 0\<rparr>"
  let ?s1 = "\<lparr>armors = [anvil, plate], todo = [plate], result = [anvil], result_cost = cost anvil\<rparr>"
  let ?s2 = "\<lparr>armors = [anvil, plate], todo = [], result = [anvil, plate],
              result_cost = cost anvil\<rparr>"
  have scan0: "greedy_scan [anvil, plate] (Fin 0) ?tc = (anvil, Fin 1, Some 0)"
    using anvil_plate efficiency_plate
    by (simp add: greedy_scan_def scan_step_def efficiency_def)
  have scan1: "greedy_scan [plate] (cost anvil) ?tc = (plate, Fin 1, Some 0)"
    using anvil_plate efficiency_plate
    by (simp add: greedy_scan_def scan_step_def efficiency_def)
  have "greedy_loop ?tc ?s0 = greedy_loop ?tc (greedy_step ?s0 0)"
    by (rule greedy_loop_step [where a = anvil and v = "Fin 1"]) (simp_all add: scan0)
  also have "greedy_step ?s0 0 = ?s1"
    by (simp add: greedy_step_def erase_def anvil_plate)
  also have "greedy_loop ?tc ?s1 = greedy_loop ?tc (greedy_step ?s1 0)"
    by (rule greedy_loop_step [where a = plate and v = "Fin 1"]) (simp_all add: scan1)
  also have "greedy_step ?s1 0 = ?s2"
    by (simp add: greedy_step_def erase_def anvil_plate)
  also have "greedy_loop ?tc ?s2 = ?s2"
    by (rule greedy_loop_stop) simp
  finally show ?thesis
    by (simp add: greedy_max_defense_def greedy_run_def)
qed

text \<open>
  The dust has a defense above \<open>0.0\<close>, but its efficiency is rounded to \<open>0.0\<close>: the
  greedy solver does not select it, and the exhaustive solver does.
\<close>

lemma efficiency_dust: "efficiency dust = Fin 0"
  unfolding efficiency_def dust_def by (simp only: ArmorItem.simps ddiv_underflows)

lemma solvers_on_dust:
  "dlt (Fin 0) (defense dust)" "greedy_max_defense [dust] (cost dust) = []"
  "exhaustive_max_defense [dust] (cost dust) = Inr [dust]"
proof -
  show d: "dlt (Fin 0) (defense dust)" by (simp add: dust_def)
  show "greedy_max_defense [dust] (cost dust) = []"
    by (rule greedy_nothing_selectable) (simp add: efficiency_dust)
  show "exhaustive_max_defense [dust] (cost dust) = Inr [dust]"
    using exhaustive_single [OF valid_dust] d by simp
qed

section \<open>The claims of the specification\<close>

text \<open>
  Claim C1: for every collection of fewer than 64 items and every budget, the defense of
  the solution of \<open>exhaustive_max_defense\<close> is at least the defense of every subset of
  the input whose cost is within the budget.

  With 54 items the loop stops before the mask of all items: for 54 plates of cost 1
  and defense 1 and budget 54 the solver returns 53 plates, while the subset of all 54
  positions costs 54 and has defense 54. All sums of this example are exact.
\<close>
theorem C1_exhaustive_misses_optimum_at_54:
  "exhaustive_max_defense (replicate 54 plate) (Fin 54) = Inr (replicate 53 plate) \<and>
   dle (armor_cost (nths (replicate 54 plate) {..<54})) (Fin 54) \<and>
   dlt (armor_defense (replicate 53 plate)) (armor_defense (nths (replicate 54 plate) {..<54}))"
proof -
  have n: "nths (replicate 54 plate) {..<54} = replicate 54 plate"
    by (simp only: nths_upt_eq_take take_replicate min.idem)
  have c54: "armor_cost (replicate 54 plate) = Fin (real 54)"
    and d54: "armor_defense (replicate 54 plate) = Fin (real 54)"
    and d53: "armor_defense (replicate 53 plate) = Fin (real 53)"
    by (rule armor_cost_replicate_plate armor_defense_replicate_plate, simp)+
  show ?thesis
    unfolding n c54 d54 d53 by (simp add: exhaustive_54_plates)
qed

text \<open>
  Claim C2: for every collection and every budget, of any sign, the solution of each
  solver costs at most the budget. With budget \<open>-1\<close> both solvers return the empty
  solution, whose cost \<open>0\<close> exceeds the budget.
\<close>
theorem C2_negative_budget_counterexample:
  "\<not> dle (armor_cost (greedy_max_defense [helmet] (Fin (- 1)))) (Fin (- 1)) \<and>
   exhaustive_max_defense [helmet] (Fin (- 1)) = Inr [] \<and>
   \<not> dle (armor_cost []) (Fin (- 1))"
proof -
  have "greedy_max_defense [helmet] (Fin (- 1)) = []"
    by (rule greedy_nothing_selectable) (simp add: fits_examples)
  moreover have "armor_cost [helmet] = Fin 10"
    by (simp add: armor_cost_single helmet_def dadd_def round64_numeral)
  then have "exhaustive_max_defense [helmet] (Fin (- 1)) = Inr []"
    by (simp add: exhaustive_single_run consider_candidates_eq exhaustive_init_def feasible_def)
  ultimately show ?thesis by simp
qed

text \<open>
  Claim C2, amended: for every collection and every budget that is at least \<open>0.0\<close>, the
  solution of \<open>greedy_max_defense\<close> has a cost of at most the budget, and so has every
  solution that \<open>exhaustive_max_defense\<close> returns. The cost of a solution is the one
  that \<open>sum_armor_vector\<close> computes for it, a sum of binary64 additions in the order
  of the solution, and the comparison is the one of binary64 numbers. The exact sum of
  the costs can exceed the budget by what the additions round away
  (\<open>greedy_anvil_plate\<close>, \<open>armor_cost_anvil_plate\<close>).
\<close>
theorem C2_solutions_within_nonnegative_budget:
  "dle (Fin 0) tc \<Longrightarrow>
   dle (armor_cost (greedy_max_defense av tc)) tc \<and>
   (\<forall>r. exhaustive_max_defense av tc = Inr r \<longrightarrow> dle (armor_cost r) tc)"
  by (simp add: greedy_feasible exhaustive_feasible)

theorem C2_witness:
  "dle (Fin 0) (Fin 10) \<and> greedy_max_defense [gauntlet] (Fin 10) = [gauntlet] \<and>
   exhaustive_max_defense [gauntlet] (Fin 10) = Inr [gauntlet] \<and>
   dle (armor_cost [gauntlet]) (Fin 10)"
proof -
  have g: "greedy_max_defense [gauntlet] (Fin 10) = [gauntlet]"
    using greedy_singleton [of gauntlet]
    by (simp add: valid_examples efficiency_examples) (simp add: gauntlet_def)
  have e: "exhaustive_max_defense [gauntlet] (Fin 10) = Inr [gauntlet]"
    using exhaustive_single [of gauntlet]
    by (simp add: valid_examples) (simp add: gauntlet_def)
  show ?thesis
    using C2_solutions_within_nonnegative_budget [of "Fin 10" "[gauntlet]"] g e by simp
qed

text \<open>
  Claim C3: for every limit \<open>\<le> 0\<close> \<open>filter_armor_vector\<close> returns an empty collection, and
  for every positive limit at most \<open>limit\<close> items, the first matching ones in source
  order.

  The positive part is \<open>filter_armor_vector_positive\<close>. For a limit \<open>\<le> 0\<close> the code
  does not return the empty collection: it compares the size with the limit only after
  it has pushed an item, and the comparison is unsigned. With limit \<open>0\<close> the first
  matching item is returned, and with limit \<open>-1\<close>, which is compared as \<open>2^64 - 1\<close>,
  every matching item is.
\<close>
theorem C3_filter_nonpositive_limit_not_empty:
  "filter_armor_vector [helmet, shield] (Fin 0) (Fin 10) 0 = [helmet] \<and>
   filter_armor_vector [helmet, shield] (Fin 0) (Fin 10) (- 1) = [helmet, shield]"
  by (simp add: filter_armor_vector_eq int_to_size_t_pos int_to_size_t_neg armor_matches_def
      helmet_def shield_def)

text \<open>
  Claim C4: for every collection of fewer than 64 items and every budget, the defense of
  the exhaustive solution is at least the defense of the greedy solution.

  For 54 plates and budget 54 the greedy solver takes all 54 plates, and the exhaustive
  solver, which never examines the mask of all items, returns a solution of smaller
  defense. All sums of this example are exact.
\<close>
theorem C4_greedy_beats_exhaustive_at_54:
  "\<exists>r. exhaustive_max_defense (replicate 54 plate) (Fin 54) = Inr r \<and>
       dlt (armor_defense r) (armor_defense (greedy_max_defense (replicate 54 plate) (Fin 54)))"
proof -
  have "greedy_max_defense (replicate 54 plate) (Fin (real 54)) = replicate 54 plate"
    by (rule greedy_plates) simp
  then have g: "greedy_max_defense (replicate 54 plate) (Fin 54) = replicate 54 plate"
    by (simp only: of_nat_numeral)
  have d54: "armor_defense (replicate 54 plate) = Fin (real 54)"
    and d53: "armor_defense (replicate 53 plate) = Fin (real 53)"
    by (rule armor_defense_replicate_plate, simp)+
  have "dlt (armor_defense (replicate 53 plate))
            (armor_defense (greedy_max_defense (replicate 54 plate) (Fin 54)))"
    unfolding g d54 d53 by simp
  then show ?thesis using exhaustive_54_plates by blast
qed

text \<open>
  Claim C5: in every round of \<open>greedy_max_defense\<close>, if an item of the pool fits the
  remaining budget, the solver selects the fitting item of greatest efficiency, the
  lowest index on ties; it stops only when no item of the pool fits; and the solution
  is not empty when some item fits the budget. A cloak of cost 1 and defense 0 fits the
  budget 1 and is not selected: the scan starts from the efficiency \<open>0.0\<close> and replaces
  it only by a strictly greater one.
\<close>
theorem C5_feasible_item_not_selected_counterexample:
  "valid_armor cloak \<and> dle (dadd (Fin 0) (cost cloak)) (Fin 1) \<and>
   greedy_max_defense [cloak] (Fin 1) = []"
proof -
  have "greedy_max_defense [cloak] (Fin 1) = []"
    by (rule greedy_nothing_selectable) (simp add: efficiency_examples)
  moreover have "dle (dadd (Fin 0) (cost cloak)) (Fin 1)"
    using fits_examples(4) by (simp only: fits_def)
  ultimately show ?thesis by (simp add: valid_examples)
qed

text \<open>
  Claim C5, amended: in every round, that is in every state \<open>st\<close> of the loop whose
  pool holds valid items, if some item of the pool fits the remaining budget and has an
  efficiency above \<open>0.0\<close>, the solver moves to the result the fitting item of greatest
  efficiency, the lowest index on ties (\<open>scan_best\<close>), and goes on; otherwise it stops
  in this state. When it has stopped, no item left in the pool both fits the remaining
  budget and has an efficiency above \<open>0.0\<close>. If some item of the input has a cost within
  the budget and an efficiency above \<open>0.0\<close>, the solution is not empty.

  An item fits when the binary64 sum of the accumulated cost and its cost is at most the
  budget, and its efficiency is the binary64 quotient of its defense by its cost: both
  are the rounded numbers that the program computes and compares. A defense above \<open>0.0\<close>
  is necessary for an efficiency above \<open>0.0\<close> (\<open>efficiency_pos\<close>), but not sufficient
  (\<open>solvers_on_dust\<close>).
\<close>
theorem C5_greedy_selects_best_positive_item:
  assumes "\<forall>a \<in> set (todo st). valid_armor a" and "\<forall>a \<in> set av. valid_armor a"
  shows "(if \<exists>a \<in> set (todo st). fits (result_cost st) tc a \<and> dlt (Fin 0) (efficiency a)
          then \<exists>i. scan_best (todo st) (result_cost st) tc (length (todo st)) i \<and>
                   greedy_loop tc st = greedy_loop tc (greedy_step st i)
          else greedy_loop tc st = st) \<and>
         (\<forall>a \<in> set (todo (greedy_loop tc st)).
            \<not> (fits (result_cost (greedy_loop tc st)) tc a \<and> dlt (Fin 0) (efficiency a))) \<and>
         ((\<exists>a \<in> set av. dle (cost a) tc \<and> dlt (Fin 0) (efficiency a)) \<longrightarrow>
            greedy_max_defense av tc \<noteq> [])"
proof -
  have r1: "if \<exists>a \<in> set (todo st). fits (result_cost st) tc a \<and> dlt (Fin 0) (efficiency a)
          then \<exists>i. scan_best (todo st) (result_cost st) tc (length (todo st)) i \<and>
                   greedy_loop tc st = greedy_loop tc (greedy_step st i)
          else greedy_loop tc st = st"
  proof (cases "\<exists>a \<in> set (todo st). fits (result_cost st) tc a \<and> dlt (Fin 0) (efficiency a)")
    case True
    from greedy_round_select [OF True] show ?thesis
      by (simp only: True if_True)
  next
    case False
    from greedy_round_stop [OF False] show ?thesis
      by (simp only: False if_False)
  qed
  have r2: "\<forall>a \<in> set (todo (greedy_loop tc st)).
            \<not> (fits (result_cost (greedy_loop tc st)) tc a \<and> dlt (Fin 0) (efficiency a))"
    by (rule greedy_stops_when_nothing_fits)
  have r3: "(\<exists>a \<in> set av. dle (cost a) tc \<and> dlt (Fin 0) (efficiency a)) \<longrightarrow>
            greedy_max_defense av tc \<noteq> []"
  proof
    assume "\<exists>a \<in> set av. dle (cost a) tc \<and> dlt (Fin 0) (efficiency a)"
    then obtain a where a: "a \<in> set av" "dle (cost a) tc" "dlt (Fin 0) (efficiency a)"
      by blast
    then have "binary64 (cost a)" using assms(2) by (simp add: valid_armor_def)
    then have "fits (Fin 0) tc a" using a(2) by (simp add: fits_zero)
    then show "greedy_max_defense av tc \<noteq> []"
      using a(1,3) by (intro greedy_nonempty) blast
  qed
  from r1 r2 r3 show ?thesis by (intro conjI)
qed

theorem C5_witness:
  "valid_armor sword \<and> valid_armor gauntlet \<and> valid_armor boots \<and>
   efficiency sword = Fin 5 \<and> efficiency gauntlet = Fin 6 \<and> efficiency boots = Fin 6 \<and>
   fits (Fin 0) (Fin 50) sword \<and> fits (Fin 0) (Fin 50) gauntlet \<and>
   fits (Fin 0) (Fin 50) boots \<and>
   greedy_loop (Fin 50)
     \<lparr>armors = [sword, gauntlet, boots], todo = [sword, gauntlet, boots], result = [],
      result_cost = Fin 0\<rparr> =
   greedy_loop (Fin 50)
     \<lparr>armors = [sword, gauntlet, boots], todo = [sword, boots], result = [gauntlet],
      result_cost = Fin 10\<rparr> \<and>
   greedy_max_defense [sword, gauntlet, boots] (Fin 50) \<noteq> []"
proof -
  let ?pool = "[sword, gauntlet, boots]"
  let ?ini = "\<lparr>armors = ?pool, todo = ?pool, result = [], result_cost = Fin 0\<rparr>"
  have v: "\<forall>a \<in> set (todo ?ini). valid_armor a" and v': "\<forall>a \<in> set ?pool. valid_armor a"
    by (simp_all add: valid_examples)
  note claim = C5_greedy_selects_best_positive_item [OF v v', where tc = "Fin 50"]
  have ex: "\<exists>a \<in> set (todo ?ini). fits (result_cost ?ini) (Fin 50) a \<and> dlt (Fin 0) (efficiency a)"
    by (simp add: fits_examples efficiency_examples)
  have ex': "\<exists>a \<in> set ?pool. dle (cost a) (Fin 50) \<and> dlt (Fin 0) (efficiency a)"
    by (simp add: efficiency_examples) (simp add: sword_def)
  have "\<exists>i. scan_best (todo ?ini) (result_cost ?ini) (Fin 50) (length (todo ?ini)) i \<and>
            greedy_loop (Fin 50) ?ini = greedy_loop (Fin 50) (greedy_step ?ini i)"
    using claim [THEN conjunct1] unfolding if_P [OF ex] .
  then obtain i where i: "scan_best (todo ?ini) (result_cost ?ini) (Fin 50) (length (todo ?ini)) i"
    and loop: "greedy_loop (Fin 50) ?ini = greedy_loop (Fin 50) (greedy_step ?ini i)"
    by blast
  have ne: "greedy_max_defense ?pool (Fin 50) \<noteq> []"
    using claim [THEN conjunct2, THEN conjunct2] ex' by (rule mp)
  have "scan_best ?pool (Fin 0) (Fin 50) (length ?pool) (Suc 0)"
    by (auto simp: scan_best_def fits_examples efficiency_examples less_Suc_eq)
  moreover have "scan_best ?pool (Fin 0) (Fin 50) (length ?pool) i"
    using i by simp
  ultimately have "i = Suc 0" by (rule scan_best_unique [rotated])
  moreover have "greedy_step ?ini (Suc 0) =
    \<lparr>armors = ?pool, todo = [sword, boots], result = [gauntlet], result_cost = Fin 10\<rparr>"
    by (simp add: greedy_step_def erase_def dadd_def round64_numeral gauntlet_def)
  ultimately have "greedy_loop (Fin 50) ?ini =
    greedy_loop (Fin 50)
      \<lparr>armors = ?pool, todo = [sword, boots], result = [gauntlet], result_cost = Fin 10\<rparr>"
    using loop by (simp only:)
  then show ?thesis
    using ne fits_examples(1,2,3) efficiency_examples(2,3,4) valid_examples(5,6,7)
    by (intro conjI)
qed

text \<open>
  Claim C6: for a single item of cost \<open>C\<close> and any value \<open>V \<ge> 0\<close> and the budget \<open>C\<close>,
  both solvers return the singleton solution. For \<open>V = 0\<close> both return the empty
  solution: the greedy scan needs an efficiency above \<open>0.0\<close>, and in the exhaustive search
  the empty subset comes first and is replaced only by a strictly greater defense.
\<close>
theorem C6_zero_value_item_counterexample:
  "valid_armor cloak \<and> dle (Fin 0) (defense cloak) \<and>
   greedy_max_defense [cloak] (cost cloak) = [] \<and>
   exhaustive_max_defense [cloak] (cost cloak) = Inr []"
proof -
  have "greedy_max_defense [cloak] (cost cloak) = []"
    by (rule greedy_nothing_selectable) (simp add: efficiency_examples)
  moreover have "exhaustive_max_defense [cloak] (cost cloak) = Inr []"
    using exhaustive_single [OF valid_examples(3)] by (simp add: cloak_def)
  moreover have "dle (Fin 0) (defense cloak)" by (simp add: cloak_def)
  ultimately show ?thesis by (simp add: valid_examples)
qed

text \<open>
  Claim C6, amended: for a single valid item of cost \<open>C\<close> and value \<open>V\<close> whose
  efficiency, the binary64 quotient of \<open>V\<close> by \<open>C\<close>, is above \<open>0.0\<close>, and the budget
  \<open>C\<close>, both solvers return the singleton solution. Such a value is above \<open>0.0\<close>
  (\<open>efficiency_pos\<close>); a value above \<open>0.0\<close> whose quotient by the cost is rounded to
  \<open>0.0\<close> is returned by the exhaustive solver only (\<open>solvers_on_dust\<close>).
\<close>
theorem C6_single_item_exact_budget:
  "valid_armor a \<Longrightarrow> dlt (Fin 0) (ddiv (defense a) (cost a)) \<Longrightarrow>
   greedy_max_defense [a] (cost a) = [a] \<and> exhaustive_max_defense [a] (cost a) = Inr [a]"
proof -
  assume v: "valid_armor a" and e: "dlt (Fin 0) (ddiv (defense a) (cost a))"
  then have "dlt (Fin 0) (efficiency a)" by (simp add: efficiency_def)
  then have "greedy_max_defense [a] (cost a) = [a]" and "dlt (Fin 0) (defense a)"
    using v by (simp_all add: greedy_singleton efficiency_pos)
  then show ?thesis using exhaustive_single [OF v] by simp
qed

theorem C6_witness:
  "valid_armor gauntlet \<and> dlt (Fin 0) (ddiv (defense gauntlet) (cost gauntlet)) \<and>
   greedy_max_defense [gauntlet] (cost gauntlet) = [gauntlet] \<and>
   exhaustive_max_defense [gauntlet] (cost gauntlet) = Inr [gauntlet]"
proof -
  have v: "valid_armor gauntlet" by (rule valid_examples)
  have d: "dlt (Fin 0) (ddiv (defense gauntlet) (cost gauntlet))"
    using efficiency_examples(3) by (simp add: efficiency_def)
  show ?thesis using C6_single_item_exact_budget [OF v d] v d by simp
qed

text \<open>
  Claim C7: for every collection of 64 or more items \<open>exhaustive_max_defense\<close> fails with
  an assertion and returns no solution; for fewer than 64 items the assertion passes and
  a solution is returned.

  The second part is \<open>exhaustive_returns\<close>, and the first part holds for sizes below
  \<open>2 ^ 31\<close> (\<open>exhaustive_asserts\<close>). The assertion is on the size narrowed to \<open>int\<close>:
  for a vector of \<open>2 ^ 32\<close> items \<open>n\<close> is \<open>0\<close>, the assertion passes and the empty
  solution is returned.
\<close>
theorem C7_assertion_passes_for_huge_vector:
  "64 \<le> length (replicate (2 ^ 32) plate) \<and>
   exhaustive_max_defense (replicate (2 ^ 32) plate) (Fin 0) = Inr []"
proof -
  have len: "length (replicate (2 ^ 32) plate) = 2 ^ 32" by (rule length_replicate)
  have "size_to_int (length (replicate (2 ^ 32) plate)) = 0"
    unfolding len by (simp add: size_to_int_def)
  then have "exhaustive_max_defense (replicate (2 ^ 32) plate) (Fin 0) = Inr []"
    by (rule exhaustive_size_wraps_to_zero)
  moreover have "64 \<le> length (replicate (2 ^ 32) plate)"
    unfolding len by simp
  ultimately show ?thesis by (rule conjI [rotated])
qed

text \<open>
  Claim C8: for every collection of fewer than 64 items \<open>exhaustive_max_defense\<close> returns
  the subset of the least mask among the feasible subsets of greatest defense, and the
  empty solution when no non-empty subset is feasible.

  For 54 plates and budget 54 the solver returns the candidate of the mask
  \<open>2 ^ 53 - 1\<close>; the mask \<open>2 ^ 54 - 1\<close> is feasible and has a greater defense, but is
  never examined. All sums of this example are exact.
\<close>
theorem C8_returned_mask_not_maximal_at_54:
  "exhaustive_max_defense (replicate 54 plate) (Fin 54) =
     Inr (build_candidates (replicate 54 plate) 54 (2 ^ 53 - 1)) \<and>
   feasible (Fin 54) (build_candidates (replicate 54 plate) 54 (2 ^ 54 - 1)) \<and>
   dlt (armor_defense (build_candidates (replicate 54 plate) 54 (2 ^ 53 - 1)))
       (armor_defense (build_candidates (replicate 54 plate) 54 (2 ^ 54 - 1)))"
proof -
  have p53: "popcount 54 (2 ^ 53 - 1) = 53" and p54: "popcount 54 (2 ^ 54 - 1) = 54"
    by (rule popcount_mask, simp)+
  have b53: "build_candidates (replicate 54 plate) 54 (2 ^ 53 - 1) = replicate 53 plate"
    by (simp only: build_candidates_replicate p53)
  have b54: "build_candidates (replicate 54 plate) 54 (2 ^ 54 - 1) = replicate 54 plate"
    by (simp only: build_candidates_replicate p54)
  have c54: "armor_cost (replicate 54 plate) = Fin (real 54)"
    and d54: "armor_defense (replicate 54 plate) = Fin (real 54)"
    and d53: "armor_defense (replicate 53 plate) = Fin (real 53)"
    by (rule armor_cost_replicate_plate armor_defense_replicate_plate, simp)+
  show ?thesis
    unfolding b53 b54 feasible_def d53 d54 c54 using exhaustive_54_plates by simp
qed

text \<open>
  Claim C9: neither solver changes the input collection: after a call it holds the same
  items in the same order. The field \<open>armors\<close> of the final state of either solver is
  the vector the solver was called with.
\<close>
theorem C9_input_vector_unchanged:
  "armors (greedy_run av tc) = av \<and>
   (case exhaustive_run av tc of Inl e \<Rightarrow> True | Inr st \<Rightarrow> armors st = av)"
  by (simp add: greedy_armors exhaustive_armors split: sum.splits)

text \<open>
  Claim C10: for every collection of fewer than 64 items, the solution of
  \<open>exhaustive_max_defense\<close> holds each position of the input at most once, in ascending
  order of the positions: it is the list of the items at a strictly increasing list of
  positions of the input.
\<close>
theorem C10_result_in_input_order:
  "length av < 64 \<Longrightarrow>
   \<exists>is. sorted_wrt (<) is \<and> set is \<subseteq> {..<length av} \<and>
        exhaustive_max_defense av tc = Inr (map ((!) av) is)"
  by (rule exhaustive_index_list)

theorem C10_witness:
  "length [helmet, shield] < 64 \<and>
   (\<exists>is. sorted_wrt (<) is \<and> set is \<subseteq> {..<length [helmet, shield]} \<and>
         exhaustive_max_defense [helmet, shield] (Fin 30) = Inr (map ((!) [helmet, shield]) is))"
proof -
  have "length [helmet, shield] < 64" by simp
  from C10_result_in_input_order [OF this, of "Fin 30"] show ?thesis by simp
qed

end
